theory Spec2Isabelle
  imports Main "HOL-Library.Multiset" "HOL-Library.Char_ord" "HOL-Library.List_Lexorder"
    "HOL-Library.Product_Lexorder"
begin

section \<open>Errors\<close>

text \<open>
  The Python exceptions the modelled functions can raise. A function that may raise
  returns \<open>error + 'a\<close>, with \<open>Inl\<close> for the exception.
\<close>

datatype error =
    KeyError | ValueError | IndexError | TypeError
  | JSONDecodeError | APIError | OverflowError | ProgrammingError

section \<open>Chapter and tag enrichment (\<open>db_builder.py\<close>, \<open>enrich_with_toc\<close>)\<close>

text \<open>
  \<open>toc.get_headings\<close> is not part of the sources; its result for the levels 0 and 1,
  concatenated, is the parameter \<open>toc_headings\<close> of \<open>enrich_with_toc\<close>: one
  dictionary per table-of-contents entry with a title, a page and a level.
\<close>

record heading =
  h_title :: string
  h_page :: int
  h_level :: int

text \<open>
  A row of the \<open>headings\<close> data frame: the heading, its index label (the position in
  the list the frame was built from) and the \<open>chapter\<close> column (\<open>None\<close> is \<open>pd.NA\<close>).
\<close>

record hrow = heading +
  h_label :: nat
  h_chapter :: "string option"

text \<open>
  A row of the \<open>exercises\<close> data frame and of the \<open>exercises\<close> table. The data frame
  holds \<open>tags\<close> as the comma-joined string already (line 326 of the dashboard).
\<close>

record exercise =
  e_reference :: string
  e_chapter :: "string option"
  e_page :: int
  e_number :: int
  e_text :: string
  e_has_figure :: bool
  e_tags :: string
  e_created_on :: string

text \<open>\<open>sep.join(xs)\<close> of Python.\<close>

fun join :: "string \<Rightarrow> string list \<Rightarrow> string" where
  "join sep [] = []"
| "join sep [x] = x"
| "join sep (x # y # ys) = x @ sep @ join sep (y # ys)"

text \<open>\<open>pd.DataFrame(headings)\<close>: the rows get the labels 0, 1, ...; with
  \<open>headings['chapter'] = pd.NA\<close> every chapter starts as NA.\<close>

definition DataFrame :: "heading list \<Rightarrow> hrow list" where
  "DataFrame hs =
     map (\<lambda>(i, h). \<lparr>h_title = h_title h, h_page = h_page h, h_level = h_level h,
                     h_label = i, h_chapter = None\<rparr>) (enumerate 0 hs)"

text \<open>
  \<open>headings.sort_values(by='page')\<close>: the rows keep their labels. The default sort of
  pandas is not stable: the result is sorted by page and holds the same rows, and rows with
  equal pages come in an order the library chooses. The sort is therefore the parameter
  \<open>sort_values\<close> of the functions below, a function of the frame (the same frame is sorted
  the same way every time), and \<open>sorts_by_page\<close> is what is known of it.
\<close>

definition sorts_by_page :: "(hrow list \<Rightarrow> hrow list) \<Rightarrow> bool" where
  "sorts_by_page sort_values =
     (\<forall>rows. sorted (map h_page (sort_values rows)) \<and> mset (sort_values rows) = mset rows)"

text \<open>\<open>headings.loc[headings.level == 0, 'chapter'] = headings.loc[headings.level == 0, 'title'].values\<close>\<close>

definition set_chapter :: "hrow list \<Rightarrow> hrow list" where
  "set_chapter rows =
     map (\<lambda>r. if h_level r = 0 then r\<lparr>h_chapter := Some (h_title r)\<rparr> else r) rows"

text \<open>\<open>headings.chapter.ffill()\<close>: an NA takes the last value that is not NA above it.\<close>

fun ffill :: "string option \<Rightarrow> hrow list \<Rightarrow> hrow list" where
  "ffill prev [] = []"
| "ffill prev (r # rs) =
     (case h_chapter r of
        None \<Rightarrow> r\<lparr>h_chapter := prev\<rparr> # ffill prev rs
      | Some c \<Rightarrow> r # ffill (Some c) rs)"

text \<open>Lines 206 to 214: the frame the loop over the exercises reads. An empty list of
  headings gives a frame with no columns, and \<open>sort_values(by='page')\<close> raises KeyError.\<close>

definition headings_frame ::
  "(hrow list \<Rightarrow> hrow list) \<Rightarrow> heading list \<Rightarrow> error + hrow list" where
  "headings_frame sort_values toc_headings =
     (if toc_headings = [] then Inl KeyError
      else Inr (ffill None (set_chapter (sort_values (DataFrame toc_headings)))))"

text \<open>\<open>Series.idxmax()\<close> on a series given as its (label, value) pairs: the label of the
  first occurrence of the maximum; ValueError on an empty series.\<close>

fun idxmax_from :: "nat \<times> int \<Rightarrow> (nat \<times> int) list \<Rightarrow> nat" where
  "idxmax_from (l, v) [] = l"
| "idxmax_from (l, v) ((l', v') # xs) =
     (if v < v' then idxmax_from (l', v') xs else idxmax_from (l, v) xs)"

fun idxmax :: "(nat \<times> int) list \<Rightarrow> error + nat" where
  "idxmax [] = Inl ValueError"
| "idxmax (x # xs) = Inr (idxmax_from x xs)"

text \<open>\<open>headings.loc[label]\<close>: the row with that label, KeyError when there is none.\<close>

definition loc :: "hrow list \<Rightarrow> nat \<Rightarrow> error + hrow" where
  "loc rows l =
     (case find (\<lambda>r. h_label r = l) rows of None \<Rightarrow> Inl KeyError | Some r \<Rightarrow> Inr r)"

text \<open>\<open>headings.chapter == section.chapter\<close> on an object column: a comparison with NA
  on either side is False.\<close>

definition chapter_eq :: "string option \<Rightarrow> string option \<Rightarrow> bool" where
  "chapter_eq a b = (case a of None \<Rightarrow> False | Some x \<Rightarrow> (case b of None \<Rightarrow> False | Some y \<Rightarrow> x = y))"

text \<open>\<open>headings.loc[headings.page[headings.page < e.page].idxmax()]\<close>\<close>

definition section_of :: "hrow list \<Rightarrow> int \<Rightarrow> error + hrow" where
  "section_of headings p =
     (case idxmax (map (\<lambda>r. (h_label r, h_page r)) (filter (\<lambda>r. h_page r < p) headings)) of
        Inl err \<Rightarrow> Inl err
      | Inr l \<Rightarrow> loc headings l)"

text \<open>\<open>','.join(headings[headings.chapter == section.chapter].title.values)\<close>\<close>

definition chapter_content :: "hrow list \<Rightarrow> hrow \<Rightarrow> string" where
  "chapter_content headings section =
     join '','' (map h_title (filter (\<lambda>r. chapter_eq (h_chapter r) (h_chapter section)) headings))"

text \<open>The body of the loop over \<open>exercises.iterrows()\<close> (lines 216 to 220).\<close>

definition enrich_row :: "hrow list \<Rightarrow> exercise \<Rightarrow> error + exercise" where
  "enrich_row headings e =
     (case section_of headings (e_page e) of
        Inl err \<Rightarrow> Inl err
      | Inr section \<Rightarrow>
          Inr (e\<lparr>e_chapter := h_chapter section,
                 e_tags := e_tags e @ '','' @ chapter_content headings section\<rparr>))"

text \<open>A Python loop or \<open>map\<close> whose body may raise: the first exception ends it.\<close>

fun map_raise :: "('a \<Rightarrow> error + 'b) \<Rightarrow> 'a list \<Rightarrow> error + 'b list" where
  "map_raise f [] = Inr []"
| "map_raise f (e # es) =
     (case f e of
        Inl err \<Rightarrow> Inl err
      | Inr e' \<Rightarrow> (case map_raise f es of Inl err \<Rightarrow> Inl err | Inr es' \<Rightarrow> Inr (e' # es')))"

definition enrich_with_toc ::
  "(hrow list \<Rightarrow> hrow list) \<Rightarrow> heading list \<Rightarrow> exercise list \<Rightarrow> error + exercise list" where
  "enrich_with_toc sort_values toc_headings exercises =
     (case headings_frame sort_values toc_headings of
        Inl err \<Rightarrow> Inl err
      | Inr headings \<Rightarrow> map_raise (enrich_row headings) exercises)"

section \<open>Page selection (\<open>db_builder.py\<close>, \<open>get_exercise_pages\<close>)\<close>

text \<open>
  \<open>pdfgrep -n\<close> prints one line \<open>page:text\<close> for every line of the document that
  matches the marker. The lines of its standard output, decoded, are the parameter.
\<close>

definition is_space :: "char \<Rightarrow> bool" where
  "is_space c = (let n = (of_char c :: nat) in n = 32 \<or> (9 \<le> n \<and> n \<le> 13))"

definition strip :: "string \<Rightarrow> string" where
  "strip s = rev (dropWhile is_space (rev (dropWhile is_space s)))"

definition digit_of :: "char \<Rightarrow> nat option" where
  "digit_of c = (let n = (of_char c :: nat) in if 48 \<le> n \<and> n \<le> 57 then Some (n - 48) else None)"

text \<open>The digits after the first one: a single underscore may stand between two digits.\<close>

fun parse_digits :: "nat \<Rightarrow> string \<Rightarrow> nat option" where
  "parse_digits acc [] = Some acc"
| "parse_digits acc [c] =
     (case digit_of c of None \<Rightarrow> None | Some d \<Rightarrow> Some (10 * acc + d))"
| "parse_digits acc (c # c' # cs) =
     (case digit_of c of
        Some d \<Rightarrow> parse_digits (10 * acc + d) (c' # cs)
      | None \<Rightarrow>
          (if c = CHR ''_'' then
             (case digit_of c' of None \<Rightarrow> None | Some d \<Rightarrow> parse_digits (10 * acc + d) cs)
           else None))"

text \<open>\<open>int(s)\<close> on an ASCII string: white space around (the space and the characters
  9 to 13), a sign, decimal digits; ValueError otherwise, and ValueError too for more than
  4300 digits (the limit of CPython on the conversion, which counts the digits and not the
  underscores).\<close>

definition py_int :: "string \<Rightarrow> error + int" where
  "py_int s =
     (let t = strip s;
          neg = (t \<noteq> [] \<and> hd t = CHR ''-'');
          u = (if t \<noteq> [] \<and> (hd t = CHR ''-'' \<or> hd t = CHR ''+'') then tl t else t)
      in case u of
           [] \<Rightarrow> Inl ValueError
         | c # cs \<Rightarrow>
             (case digit_of c of
                None \<Rightarrow> Inl ValueError
              | Some d \<Rightarrow>
                  (case parse_digits d cs of
                     None \<Rightarrow> Inl ValueError
                   | Some n \<Rightarrow>
                       if 4300 < length (filter (\<lambda>x. digit_of x \<noteq> None) u) then Inl ValueError
                       else Inr (if neg then - int n else int n))))"

text \<open>\<open>x.split(':')[0]\<close>\<close>

definition split_first :: "char \<Rightarrow> string \<Rightarrow> string" where
  "split_first c s = takeWhile (\<lambda>x. x \<noteq> c) s"

definition get_exercise_pages :: "string list \<Rightarrow> error + int list" where
  "get_exercise_pages stdout_lines = map_raise (\<lambda>x. py_int (split_first CHR '':'' x)) stdout_lines"

section \<open>Exercise extraction (\<open>db_builder.py\<close>, \<open>extract_exercises\<close>)\<close>

text \<open>
  What the AI service does with a request: the call raises (\<open>ServiceError\<close>), or it
  returns a text that \<open>json.loads\<close> rejects (\<open>NotJson\<close>) or parses (\<open>Json\<close>).
  For an extraction request the model covers parsed values of the shape the prompt asks for,
  a list of objects with the four fields; for a grading request see \<open>solution_json\<close>.
\<close>

datatype 'a reply = ServiceError | NotJson | Json 'a

record raw_exercise =
  x_number :: int
  x_text :: string
  x_has_figure :: bool
  x_tags :: "string list"

text \<open>\<open>client.messages.create\<close> stands outside the \<open>try\<close>, \<open>json.loads\<close> inside.\<close>

definition extract_exercises :: "raw_exercise list reply \<Rightarrow> error + raw_exercise list" where
  "extract_exercises r =
     (case r of
        ServiceError \<Rightarrow> Inl APIError
      | NotJson \<Rightarrow> Inr []
      | Json page_exercises \<Rightarrow> Inr page_exercises)"

section \<open>Persistence (\<open>db_builder.py\<close>, \<open>save_exercises\<close>)\<close>

text \<open>
  The \<open>exercises\<close> table is the list of its rows, in insertion order. \<open>executemany\<close>
  inserts the rows of the frame in one transaction, binding the columns of a row in the
  order of the frame: the number first, the chapter after it, then the page. An integer
  outside 64 bits cannot be bound (OverflowError), nor can a \<open>chapter\<close> that is
  \<open>pd.NA\<close> (ProgrammingError; InterfaceError before Python 3.11): \<open>sqlite3\<close> raises
  at the first such value, and the connection's context manager rolls the transaction back.
\<close>

definition sqlite_integer :: "int \<Rightarrow> bool" where
  "sqlite_integer n = (- (2 ^ 63) \<le> n \<and> n < 2 ^ 63)"

definition bind_error :: "exercise \<Rightarrow> error option" where
  "bind_error e =
     (if \<not> sqlite_integer (e_number e) then Some OverflowError
      else if e_chapter e = None then Some ProgrammingError
      else if \<not> sqlite_integer (e_page e) then Some OverflowError
      else None)"

definition save_exercises :: "exercise list \<Rightarrow> exercise list \<Rightarrow> error + exercise list" where
  "save_exercises exercises store =
     (case List.map_filter bind_error exercises of
        err # errs \<Rightarrow> Inl err
      | [] \<Rightarrow> Inr (store @ exercises))"

section \<open>Ingestion (\<open>streamlit-dashboard.py\<close>, \<open>process_document\<close>)\<close>

text \<open>SQLite's \<open>LIKE\<close> (pattern first) on ASCII strings: \<open>%\<close> stands for any run of
  characters, \<open>_\<close> for one character, and letters match whatever their case.\<close>

definition ascii_lower :: "char \<Rightarrow> char" where
  "ascii_lower c = (let n = (of_char c :: nat) in if 65 \<le> n \<and> n \<le> 90 then char_of (n + 32) else c)"

fun sql_like :: "string \<Rightarrow> string \<Rightarrow> bool" where
  "sql_like [] s = (s = [])"
| "sql_like (c # p) [] = (c = CHR ''%'' \<and> sql_like p [])"
| "sql_like (c # p) (d # s) =
     (if c = CHR ''%'' then sql_like p (d # s) \<or> sql_like (c # p) s
      else (c = CHR ''_'' \<or> ascii_lower c = ascii_lower d) \<and> sql_like p s)"

text \<open>
  What \<open>process_document\<close> reads from the document at \<open>file_path\<close>: the reference (the
  file's base name without its extension), the page images of \<open>convert_from_path\<close>, the
  output of \<open>pdfgrep\<close> and the headings of its table of contents. The reference is put
  into the text of the SQL statement between apostrophes: the model is of references that
  hold no apostrophe.
\<close>

record 'img document =
  d_reference :: string
  d_page_imgs :: "'img list"
  d_marker_lines :: "string list"
  d_toc :: "heading list"

text \<open>The texts \<open>status_text\<close> is given, in order (the progress bar is left out).\<close>

datatype status =
    Converting | Identifying | Checking | NoNewExercises | Extracting
  | ProcessingPage int | Saving | Complete | ErrorStatus error

text \<open>\<open>xs[i]\<close> of Python: a negative index counts from the end.\<close>

definition py_index :: "'a list \<Rightarrow> int \<Rightarrow> error + 'a" where
  "py_index xs i =
     (let n = int (length xs); j = (if i < 0 then i + n else i)
      in if 0 \<le> j \<and> j < n then Inr (xs ! nat j) else Inl IndexError)"

text \<open>\<open>SELECT reference, page FROM exercises WHERE page IN (pages) AND reference LIKE
  'reference'\<close>, then \<open>existing_pages.page.unique()\<close>.\<close>

definition existing_pages :: "exercise list \<Rightarrow> string \<Rightarrow> int list \<Rightarrow> int list" where
  "existing_pages store reference pages =
     remdups (map e_page
       (filter (\<lambda>r. e_page r \<in> set pages \<and> sql_like reference (e_reference r)) store))"

text \<open>Lines 317 to 322 and 326: the dictionary of the AI service becomes a row of the
  frame, stamped with the empty chapter, the page, the reference and the time. The clock is
  read for every exercise; the model gives a run one time, \<open>now\<close>.\<close>

definition stamp :: "string \<Rightarrow> int \<Rightarrow> string \<Rightarrow> raw_exercise \<Rightarrow> exercise" where
  "stamp reference p now e =
     \<lparr>e_reference = reference, e_chapter = Some [], e_page = p, e_number = x_number e,
      e_text = x_text e, e_has_figure = x_has_figure e, e_tags = join '','' (x_tags e),
      e_created_on = now\<rparr>"

text \<open>The body of the loop over the pages (lines 313 to 329): the store after it and the
  number of rows it added, or the exception that leaves the loop. The parameter \<open>ai\<close> is
  the AI service: its answer to the extraction request for an image.\<close>

definition process_page ::
  "(hrow list \<Rightarrow> hrow list) \<Rightarrow> ('img \<Rightarrow> raw_exercise list reply) \<Rightarrow> string \<Rightarrow> 'img document
     \<Rightarrow> int \<Rightarrow> exercise list \<Rightarrow> error + exercise list \<times> nat" where
  "process_page sort_values ai now doc p store =
     (case py_index (d_page_imgs doc) (p - 1) of
        Inl err \<Rightarrow> Inl err
      | Inr im \<Rightarrow>
     (case extract_exercises (ai im) of
        Inl err \<Rightarrow> Inl err
      | Inr exercises \<Rightarrow>
          (let ex_df = map (stamp (d_reference doc) p now) exercises in
           if ex_df = [] then Inr (store, 0)
           else
             (case enrich_with_toc sort_values (d_toc doc) ex_df of
                Inl err \<Rightarrow> Inl err
              | Inr enriched \<Rightarrow>
                  (case save_exercises enriched store of
                     Inl err \<Rightarrow> Inl err
                   | Inr store' \<Rightarrow> Inr (store', length enriched))))))"

text \<open>The loop over the pages: the exception that ended it, if any, the store, the count
  \<open>num_exercises\<close> and the status texts.\<close>

fun process_pages ::
  "(hrow list \<Rightarrow> hrow list) \<Rightarrow> ('img \<Rightarrow> raw_exercise list reply) \<Rightarrow> string \<Rightarrow> 'img document
     \<Rightarrow> int list \<Rightarrow> exercise list \<times> nat \<times> status list
     \<Rightarrow> error option \<times> exercise list \<times> nat \<times> status list" where
  "process_pages sort_values ai now doc [] st = (None, st)"
| "process_pages sort_values ai now doc (p # ps) (store, num_exercises, log) =
     (case process_page sort_values ai now doc p store of
        Inl err \<Rightarrow> (Some err, store, num_exercises, log @ [ProcessingPage p])
      | Inr (store', n) \<Rightarrow>
          process_pages sort_values ai now doc ps
            (store', num_exercises + n, log @ [ProcessingPage p]))"

text \<open>Lines 279 to 295: the candidate pages, all pages when no marker was found, and those
  of them with no row in the store.\<close>

definition candidate_pages :: "'img document \<Rightarrow> int list \<Rightarrow> int list" where
  "candidate_pages doc pages =
     (if pages = [] then [1..int (length (d_page_imgs doc))] else pages)"

definition new_pages :: "exercise list \<Rightarrow> string \<Rightarrow> int list \<Rightarrow> int list" where
  "new_pages store reference pages =
     filter (\<lambda>x. x \<notin> set (existing_pages store reference pages)) pages"

text \<open>
  \<open>process_document\<close>: the value it returns (\<open>None\<close> is Python's \<open>None\<close>), the store
  after the run and the status texts. Every exception is caught at the end of the function,
  which then returns \<open>None\<close>.
\<close>

definition process_document ::
  "(hrow list \<Rightarrow> hrow list) \<Rightarrow> ('img \<Rightarrow> raw_exercise list reply) \<Rightarrow> string \<Rightarrow> 'img document
     \<Rightarrow> exercise list \<Rightarrow> nat option \<times> exercise list \<times> status list" where
  "process_document sort_values ai now doc store =
     (case get_exercise_pages (d_marker_lines doc) of
        Inl err \<Rightarrow> (None, store, [Converting, Identifying, ErrorStatus err])
      | Inr marked \<Rightarrow>
          (let pages = new_pages store (d_reference doc) (candidate_pages doc marked) in
           if pages = [] then (None, store, [Converting, Identifying, Checking, NoNewExercises])
           else
             (case process_pages sort_values ai now doc pages
                     (store, 0, [Converting, Identifying, Checking, Extracting]) of
                (Some err, store', num_exercises, log) \<Rightarrow> (None, store', log @ [ErrorStatus err])
              | (None, store', num_exercises, log) \<Rightarrow>
                  (Some num_exercises, store', log @ [Saving, Complete]))))"

section \<open>Grading (\<open>extract_solution\<close> and the handler in \<open>solutions_page\<close>)\<close>

text \<open>A parsed grading response: not a JSON object, an object that lacks one of the three
  keys, or an object with the three values.\<close>

datatype solution_json = NotObject | MissingKey | Solution string bool string

text \<open>\<open>json.loads\<close> stands outside any \<open>try\<close>: its exception leaves the function, and
  so do the TypeError and the KeyError of the three subscripts.\<close>

definition extract_solution :: "solution_json reply \<Rightarrow> error + string \<times> bool \<times> string" where
  "extract_solution r =
     (case r of
        ServiceError \<Rightarrow> Inl APIError
      | NotJson \<Rightarrow> Inl JSONDecodeError
      | Json NotObject \<Rightarrow> Inl TypeError
      | Json MissingKey \<Rightarrow> Inl KeyError
      | Json (Solution solution_text is_correct feedback) \<Rightarrow>
          Inr (solution_text, is_correct, feedback))"

record attempt =
  a_reference :: string
  a_page :: int
  a_number :: int
  a_solution :: string
  a_is_solution_correct :: bool
  a_solution_feedback :: string
  a_attempted_on :: string

text \<open>What the page shows after "Process Solution".\<close>

datatype message = SolutionProcessed string bool string | ErrorProcessing error

text \<open>Lines 194 to 236 of \<open>solutions_page\<close>: the \<open>attempts\<close> table after the handler
  and the message shown. The \<open>INSERT\<close> follows the call of \<open>extract_solution\<close> inside
  the same \<open>try\<close>.\<close>

definition process_solution ::
  "solution_json reply \<Rightarrow> string \<times> int \<times> int \<Rightarrow> string \<Rightarrow> attempt list
     \<Rightarrow> message \<times> attempt list" where
  "process_solution r exercise current_date attempts =
     (case extract_solution r of
        Inl err \<Rightarrow> (ErrorProcessing err, attempts)
      | Inr (solution_text, is_correct, feedback) \<Rightarrow>
          (SolutionProcessed solution_text is_correct feedback,
           attempts @
             [\<lparr>a_reference = fst exercise, a_page = fst (snd exercise),
               a_number = snd (snd exercise), a_solution = solution_text,
               a_is_solution_correct = is_correct, a_solution_feedback = feedback,
               a_attempted_on = current_date\<rparr>]))"

text \<open>The grading responses that parse as the object the prompt asks for.\<close>

definition parses_as_solution :: "solution_json reply \<Rightarrow> bool" where
  "parses_as_solution r = (case r of Json (Solution t c f) \<Rightarrow> True | _ \<Rightarrow> False)"

section \<open>The exercise query (\<open>streamlit-dashboard.py\<close>, \<open>get_exercises\<close>)\<close>

text \<open>The key the query joins and groups on.\<close>

definition exercise_key :: "'a exercise_scheme \<Rightarrow> string \<times> int \<times> int" where
  "exercise_key e = (e_reference e, e_page e, e_number e)"

definition attempt_key :: "attempt \<Rightarrow> string \<times> int \<times> int" where
  "attempt_key a = (a_reference a, a_page a, a_number a)"

text \<open>The attempts the \<open>LEFT JOIN\<close> gives an exercise.\<close>

definition joined_attempts :: "attempt list \<Rightarrow> string \<times> int \<times> int \<Rightarrow> attempt list" where
  "joined_attempts attempts k = filter (\<lambda>a. attempt_key a = k) attempts"

text \<open>\<open>MAX(a.is_solution_correct)\<close>: the boolean is stored as 0 or 1; the maximum over no
  row is NULL (\<open>None\<close>).\<close>

definition stored_bool :: "bool \<Rightarrow> int" where
  "stored_bool b = (if b then 1 else 0)"

fun sql_max :: "int list \<Rightarrow> int option" where
  "sql_max [] = None"
| "sql_max (x # xs) = Some (fold max xs x)"

text \<open>A row of the result: the exercise with the two aggregates of its group.\<close>

record exercise_result = exercise +
  attempt_count :: nat
  is_solved :: "int option"

text \<open>
  One row per group of \<open>GROUP BY e.reference, e.page, e.number\<close>. SQLite takes the
  columns \<open>e.*\<close> of a group from the joined row on which \<open>MAX\<close> first reaches its
  value, which is a row of the first exercise of the group in the table; when the group has no
  attempt, the maximum stays NULL and the columns are those of the last exercise of the group.
\<close>

definition group_row :: "exercise list \<Rightarrow> attempt list \<Rightarrow> string \<times> int \<times> int \<Rightarrow> exercise_result option" where
  "group_row exercises attempts k =
     (case filter (\<lambda>e. exercise_key e = k) exercises of
        [] \<Rightarrow> None
      | e # es \<Rightarrow>
          Some (exercise.extend (if joined_attempts attempts k = [] then last (e # es) else e)
            \<lparr>attempt_count = length (remdups (map a_attempted_on (joined_attempts attempts k))),
             is_solved = sql_max (map (\<lambda>a. stored_bool (a_is_solution_correct a))
                                      (joined_attempts attempts k))\<rparr>))"

text \<open>The conditions of the \<open>HAVING\<close> clause, joined by \<open>AND\<close>: a comparison with NULL
  is not true. \<open>None\<close> and the empty list are the same to \<open>if tags:\<close>.\<close>

definition having ::
  "string list \<Rightarrow> string list \<Rightarrow> string list \<Rightarrow> exercise_result \<Rightarrow> bool" where
  "having tags references attempt_status r =
     ((tags = [] \<or> list_ex (\<lambda>tag. sql_like (''%'' @ tag @ ''%'') (e_tags r)) tags) \<and>
      (references = [] \<or> list_ex (\<lambda>ref. e_reference r = ref) references) \<and>
      (''not_attempted'' \<in> set attempt_status \<longrightarrow> attempt_count r = 0) \<and>
      (''attempted'' \<in> set attempt_status \<longrightarrow> attempt_count r > 0) \<and>
      (''correct'' \<in> set attempt_status \<longrightarrow> is_solved r = Some 1) \<and>
      (''incorrect'' \<in> set attempt_status \<longrightarrow> is_solved r = Some 0))"

text \<open>The groups come in the order of their keys (SQLite sorts the joined rows to group
  them; the reference is compared byte by byte).\<close>

definition get_exercises ::
  "exercise list \<Rightarrow> attempt list \<Rightarrow> string list \<Rightarrow> string list \<Rightarrow> string list
     \<Rightarrow> exercise_result list" where
  "get_exercises exercises attempts tags references attempt_status =
     filter (having tags references attempt_status)
       (List.map_filter (group_row exercises attempts)
          (sort (remdups (map exercise_key exercises))))"

section \<open>The spec's readings that the properties compare the code with\<close>

text \<open>
  The heading an exercise on page \<open>p\<close> belongs to, among the rows of the sorted frame
  whose page is the greatest one below \<open>p\<close>: the last of them, as the spec's tie-break
  has it, and the first of them.
\<close>

definition greatest_page_before :: "hrow list \<Rightarrow> int \<Rightarrow> int" where
  "greatest_page_before headings p = Max (set (map h_page (filter (\<lambda>r. h_page r < p) headings)))"

definition nearest_heading_last :: "hrow list \<Rightarrow> int \<Rightarrow> hrow" where
  "nearest_heading_last headings p =
     last (filter (\<lambda>r. h_page r = greatest_page_before headings p) headings)"

definition nearest_heading_first :: "hrow list \<Rightarrow> int \<Rightarrow> hrow" where
  "nearest_heading_first headings p =
     hd (filter (\<lambda>r. h_page r = greatest_page_before headings p) headings)"

section \<open>Notions the properties of ingestion are stated with\<close>

text \<open>
  The loop body on an empty store gives what one page contributes: whether the loop gets
  past the page, and the rows the page adds to the table.
\<close>

definition page_ok ::
  "(hrow list \<Rightarrow> hrow list) \<Rightarrow> ('img \<Rightarrow> raw_exercise list reply) \<Rightarrow> string \<Rightarrow> 'img document
     \<Rightarrow> int \<Rightarrow> bool" where
  "page_ok sort_values ai now doc p =
     (case process_page sort_values ai now doc p [] of Inl err \<Rightarrow> False | Inr res \<Rightarrow> True)"

definition page_rows ::
  "(hrow list \<Rightarrow> hrow list) \<Rightarrow> ('img \<Rightarrow> raw_exercise list reply) \<Rightarrow> string \<Rightarrow> 'img document
     \<Rightarrow> int \<Rightarrow> exercise list" where
  "page_rows sort_values ai now doc p =
     (case process_page sort_values ai now doc p [] of Inl err \<Rightarrow> [] | Inr res \<Rightarrow> fst res)"

text \<open>The references the model of the SQL statement covers: those without an apostrophe.\<close>

definition plain_reference :: "string \<Rightarrow> bool" where
  "plain_reference reference = (CHR 0x27 \<notin> set reference)"

section \<open>Example data\<close>

text \<open>Two sorts by page: the stable one, which leaves rows with equal pages in the order of
  the frame, and one that leaves them in the opposite order.\<close>

definition stable_sort :: "hrow list \<Rightarrow> hrow list" where
  "stable_sort rows = sort_key h_page rows"

definition sort_ties_reversed :: "hrow list \<Rightarrow> hrow list" where
  "sort_ties_reversed rows = sort_key h_page (rev rows)"

text \<open>A table of contents in which chapter 2 and its first section start on page 10.\<close>

definition toc_shared_page :: "heading list" where
  "toc_shared_page =
     [\<lparr>h_title = ''Ch1'', h_page = 1, h_level = 0\<rparr>,
      \<lparr>h_title = ''Ch2'', h_page = 10, h_level = 0\<rparr>,
      \<lparr>h_title = ''1.1'', h_page = 3, h_level = 1\<rparr>,
      \<lparr>h_title = ''2.1'', h_page = 10, h_level = 1\<rparr>]"

text \<open>The table of contents of the spec's example, as \<open>toc.get_headings\<close> lists it
  (level 0 first), a table of contents with two chapters on one page, and a row of the frame
  of exercises.\<close>

definition toc_example :: "heading list" where
  "toc_example =
     [\<lparr>h_title = ''Ch1'', h_page = 1, h_level = 0\<rparr>,
      \<lparr>h_title = ''Ch2'', h_page = 10, h_level = 0\<rparr>,
      \<lparr>h_title = ''1.2'', h_page = 5, h_level = 1\<rparr>]"

definition toc_tie :: "heading list" where
  "toc_tie =
     [\<lparr>h_title = ''A'', h_page = 1, h_level = 0\<rparr>,
      \<lparr>h_title = ''B'', h_page = 1, h_level = 0\<rparr>]"

definition exercise_on :: "int \<Rightarrow> string list \<Rightarrow> exercise" where
  "exercise_on p ai_tags =
     stamp ''book'' p ''01/01/2025 10:00:00''
       \<lparr>x_number = 1, x_text = ''Show that $1 + 1 = 2$.'', x_has_figure = False, x_tags = ai_tags\<rparr>"

text \<open>
  A book of seven pages with the spec's table of contents and two marked pages: the AI's
  answer for page 5 is not JSON, page 6 holds one exercise. Images are numbered by page.
\<close>

definition book :: "nat document" where
  "book =
     \<lparr>d_reference = ''book'', d_page_imgs = [1, 2, 3, 4, 5, 6, 7],
      d_marker_lines = [''5:(esx10) Exercise 1'' @ [CHR 0x0A], ''6:(esx10) Exercise 2'' @ [CHR 0x0A]],
      d_toc = toc_example\<rparr>"

definition book_ai :: "nat \<Rightarrow> raw_exercise list reply" where
  "book_ai im =
     (if im = 5 then NotJson
      else if im = 6 then
        Json [\<lparr>x_number = 2, x_text = ''Find the limit of $1/n$.'', x_has_figure = False,
               x_tags = [''limits'']\<rparr>]
      else Json [])"

text \<open>The same book with two marker lines on page 6 and none on page 5.\<close>

definition book_two_lines :: "nat document" where
  "book_two_lines =
     book\<lparr>d_marker_lines :=
       [''6:(esx10) Exercise 2'' @ [CHR 0x0A], ''6:(esx10) Exercise 3'' @ [CHR 0x0A]]\<rparr>"

text \<open>The row the run stores for page 6 at the given time.\<close>

definition book_row :: "string \<Rightarrow> exercise" where
  "book_row now =
     \<lparr>e_reference = ''book'', e_chapter = Some ''Ch1'', e_page = 6, e_number = 2,
      e_text = ''Find the limit of $1/n$.'', e_has_figure = False, e_tags = ''limits,Ch1,1.2'',
      e_created_on = now\<rparr>"

text \<open>An attempt at exercise 1 of a page of the book.\<close>

definition attempt_on :: "int \<Rightarrow> bool \<Rightarrow> string \<Rightarrow> attempt" where
  "attempt_on p correct date =
     \<lparr>a_reference = ''book'', a_page = p, a_number = 1, a_solution = ''$2$'',
      a_is_solution_correct = correct, a_solution_feedback = ''ok'', a_attempted_on = date\<rparr>"

section \<open>Properties of the model\<close>

subsection \<open>Loops that may raise, joins, the frame of headings\<close>

lemma map_raise_length: "map_raise f xs = Inr ys \<Longrightarrow> length ys = length xs"
  by (induction xs arbitrary: ys) (auto split: sum.splits)

lemma map_raise_nth:
  "map_raise f xs = Inr ys \<Longrightarrow> i < length xs \<Longrightarrow> f (xs ! i) = Inr (ys ! i)"
proof (induction xs arbitrary: ys i)
  case Nil
  then show ?case by simp
next
  case (Cons x xs)
  then show ?case by (cases i) (auto split: sum.splits)
qed

lemma map_raise_all_Inr:
  "(\<And>x. x \<in> set xs \<Longrightarrow> \<exists>y. f x = Inr y) \<Longrightarrow> \<exists>ys. map_raise f xs = Inr ys"
proof (induction xs)
  case Nil
  then show ?case by simp
next
  case (Cons x xs)
  then obtain y where "f x = Inr y" by auto
  moreover from Cons obtain ys where "map_raise f xs = Inr ys" by auto
  ultimately show ?case by simp
qed

lemma join_append:
  "xs \<noteq> [] \<Longrightarrow> zs \<noteq> [] \<Longrightarrow> join sep (xs @ zs) = join sep xs @ sep @ join sep zs"
proof (induction sep xs rule: join.induct)
  case (1 sep)
  then show ?case by simp
next
  case (2 sep x)
  then show ?case by (cases zs) simp_all
next
  case (3 sep x y ys)
  then show ?case by simp
qed

lemma ffill_label: "map h_label (ffill prev rs) = map h_label rs"
  by (induction rs arbitrary: prev) (auto split: option.splits)

lemma ffill_page: "map h_page (ffill prev rs) = map h_page rs"
  by (induction rs arbitrary: prev) (auto split: option.splits)

lemma set_chapter_label: "map h_label (set_chapter rs) = map h_label rs"
  by (simp add: set_chapter_def)

lemma set_chapter_page: "map h_page (set_chapter rs) = map h_page rs"
  by (simp add: set_chapter_def)

lemma map_snd_enumerate_comp: "map (\<lambda>x. f (snd x)) (enumerate n xs) = map f xs"
  by (induction xs arbitrary: n) simp_all

lemma map_fst_enumerate_comp: "map (\<lambda>x. f (fst x)) (enumerate n xs) = map f [n..<n + length xs]"
  by (induction xs arbitrary: n) (simp_all add: upt_rec)

lemma DataFrame_page: "map h_page (DataFrame hs) = map h_page hs"
  by (simp add: DataFrame_def comp_def case_prod_beta map_snd_enumerate_comp)

lemma DataFrame_title: "map h_title (DataFrame hs) = map h_title hs"
  by (simp add: DataFrame_def comp_def case_prod_beta map_snd_enumerate_comp)

lemma DataFrame_label: "map h_label (DataFrame hs) = [0..<length hs]"
  using map_fst_enumerate_comp [of "\<lambda>x. x" 0 hs]
  by (simp add: DataFrame_def comp_def case_prod_beta)

lemma idxmax_from_first:
  "idxmax_from (l, v) (map (\<lambda>r. (lab r, val r)) xs) =
     (if \<forall>x\<in>set xs. val x \<le> v then l
      else lab (hd (filter (\<lambda>r. val r = Max (val ` set xs)) xs)))"
proof (induction xs arbitrary: l v)
  case Nil
  then show ?case by simp
next
  case (Cons x xs)
  show ?case
  proof (cases "v < val x")
    case True
    show ?thesis
    proof (cases "\<forall>y\<in>set xs. val y \<le> val x")
      case all: True
      then have "Max (val ` set (x # xs)) = val x"
        by (intro Max_eqI) auto
      with True all Cons.IH [of "lab x" "val x"] show ?thesis by auto
    next
      case False
      then obtain y where y: "y \<in> set xs" "val x < val y" by auto
      then have "val x < Max (val ` set xs)"
        by (meson List.finite_set Max_ge finite_imageI imageI less_le_trans)
      moreover have "Max (val ` set (x # xs)) = max (val x) (Max (val ` set xs))"
        using y by (simp only: list.set image_insert) (subst Max_insert, auto)
      ultimately have "Max (val ` set (x # xs)) = Max (val ` set xs)" "val x \<noteq> Max (val ` set xs)"
        by auto
      with True False Cons.IH [of "lab x" "val x"] show ?thesis by auto
    qed
  next
    case False
    show ?thesis
    proof (cases "\<forall>y\<in>set xs. val y \<le> v")
      case True
      with False Cons.IH [of l v] show ?thesis by auto
    next
      case nall: False
      then obtain y where y: "y \<in> set xs" "v < val y" by auto
      then have "v < Max (val ` set xs)"
        by (meson List.finite_set Max_ge finite_imageI imageI less_le_trans)
      moreover have "Max (val ` set (x # xs)) = max (val x) (Max (val ` set xs))"
        using y by (simp only: list.set image_insert) (subst Max_insert, auto)
      ultimately have "Max (val ` set (x # xs)) = Max (val ` set xs)" "val x \<noteq> Max (val ` set xs)"
        using False by auto
      with False nall Cons.IH [of l v] show ?thesis by auto
    qed
  qed
qed

lemma idxmax_first:
  assumes "xs \<noteq> []"
  shows "idxmax (map (\<lambda>r. (lab r, val r)) xs) =
           Inr (lab (hd (filter (\<lambda>r. val r = Max (val ` set xs)) xs)))"
proof -
  from assms obtain x ys where xs: "xs = x # ys" by (cases xs) auto
  show ?thesis
  proof (cases "\<forall>y\<in>set ys. val y \<le> val x")
    case True
    then have "Max (val ` set xs) = val x"
      unfolding xs by (intro Max_eqI) auto
    with True show ?thesis by (simp add: xs idxmax_from_first)
  next
    case False
    then obtain y where y: "y \<in> set ys" "val x < val y" by auto
    then have "val x < Max (val ` set ys)"
      by (meson List.finite_set Max_ge finite_imageI imageI less_le_trans)
    moreover have "Max (val ` set (x # ys)) = max (val x) (Max (val ` set ys))"
      using y by (simp only: list.set image_insert) (subst Max_insert, auto)
    ultimately have "Max (val ` set xs) = Max (val ` set ys)" "val x \<noteq> Max (val ` set ys)"
      by (auto simp: xs)
    with False show ?thesis by (auto simp: xs idxmax_from_first)
  qed
qed

lemma find_label:
  "distinct (map h_label F) \<Longrightarrow> r \<in> set F \<Longrightarrow> find (\<lambda>x. h_label x = h_label r) F = Some r"
  by (induction F) (auto simp: image_iff)

lemma section_of_first:
  assumes dist: "distinct (map h_label F)" and ex: "\<exists>r\<in>set F. h_page r < P"
  shows "section_of F P =
           Inr (hd (filter (\<lambda>r. h_page r = Max (h_page ` {r \<in> set F. h_page r < P})) F))"
proof -
  define G where "G = filter (\<lambda>r. h_page r < P) F"
  define m where "m = Max (h_page ` set G)"
  from ex have ne: "G \<noteq> []" by (auto simp: G_def filter_empty_conv)
  have setG: "set G = {r \<in> set F. h_page r < P}" by (auto simp: G_def)
  have "m \<in> h_page ` set G"
    unfolding m_def using ne by (intro Max_in) auto
  then have mP: "m < P" by (auto simp: G_def)
  have eq: "filter (\<lambda>r. h_page r = m) G = filter (\<lambda>r. h_page r = m) F"
    unfolding G_def using mP by (auto intro: filter_cong)
  from \<open>m \<in> h_page ` set G\<close> have "filter (\<lambda>r. h_page r = m) G \<noteq> []"
    by (auto simp: filter_empty_conv)
  then have "hd (filter (\<lambda>r. h_page r = m) G) \<in> set (filter (\<lambda>r. h_page r = m) G)"
    by (rule hd_in_set)
  then have inF: "hd (filter (\<lambda>r. h_page r = m) F) \<in> set F" by (auto simp: eq)
  have "idxmax (map (\<lambda>r. (h_label r, h_page r)) G) =
          Inr (h_label (hd (filter (\<lambda>r. h_page r = m) F)))"
    using idxmax_first [OF ne, of h_label h_page] by (simp add: m_def [symmetric] eq)
  then have "section_of F P = Inr (hd (filter (\<lambda>r. h_page r = m) F))"
    using find_label [OF dist inF] by (simp add: section_of_def G_def loc_def)
  then show ?thesis by (simp add: m_def setG)
qed

lemma section_of_none:
  assumes "\<forall>r\<in>set F. P \<le> h_page r"
  shows "section_of F P = Inl ValueError"
proof -
  from assms have "filter (\<lambda>r. h_page r < P) F = []"
    by (auto simp: filter_empty_conv)
  then show ?thesis by (simp add: section_of_def)
qed

lemma headings_frame_Inr:
  assumes "headings_frame srt hs = Inr F"
  shows "hs \<noteq> []" and "F = ffill None (set_chapter (srt (DataFrame hs)))"
  using assms by (auto simp: headings_frame_def split: if_splits)

lemma sorts_by_pageD:
  assumes "sorts_by_page srt"
  shows "sorted (map h_page (srt rows))" and "mset (srt rows) = mset rows"
    and "set (srt rows) = set rows"
proof -
  from assms show "sorted (map h_page (srt rows))" and m: "mset (srt rows) = mset rows"
    by (simp_all add: sorts_by_page_def)
  from m show "set (srt rows) = set rows" by (rule mset_eq_setD)
qed

lemma sorts_by_page_stable: "sorts_by_page stable_sort"
  by (simp add: sorts_by_page_def stable_sort_def)

lemma sorts_by_page_ties_reversed: "sorts_by_page sort_ties_reversed"
  by (simp add: sorts_by_page_def sort_ties_reversed_def)

text \<open>Where no two rows share a page, the sorted frame is the same for every sort.\<close>

lemma filter_same_key:
  "distinct (map f xs) \<Longrightarrow> k \<in> set xs \<Longrightarrow> filter (\<lambda>x. f k = f x) xs = [k]"
proof (induction xs)
  case Nil
  then show ?case by simp
next
  case (Cons x xs)
  show ?case
  proof (cases "k = x")
    case True
    with Cons.prems have "filter (\<lambda>y. f x = f y) xs = []"
      by (auto simp: filter_empty_conv)
    with True show ?thesis by simp
  next
    case False
    with Cons.prems have k: "k \<in> set xs" by simp
    from Cons.prems(1) have "f x \<notin> f ` set xs" by simp
    with k have "f k \<noteq> f x" by (metis imageI)
    with k Cons show ?thesis by simp
  qed
qed

lemma sort_distinct_pages:
  assumes srt: "sorts_by_page srt" and d: "distinct (map h_page rows)"
  shows "srt rows = sort_key h_page rows"
proof -
  have m: "mset (srt rows) = mset rows" by (rule sorts_by_pageD(2) [OF srt])
  then have "mset (map h_page (srt rows)) = mset (map h_page rows)" by simp
  with d have d': "distinct (map h_page (srt rows))"
    by (metis mset_eq_imp_distinct_iff)
  have "sort_key h_page rows = srt rows"
  proof (rule properties_for_sort_key [OF m _ sorts_by_pageD(1) [OF srt]])
    fix k assume k: "k \<in> set (srt rows)"
    then have "k \<in> set rows" using sorts_by_pageD(3) [OF srt] by simp
    with k d d' show "filter (\<lambda>x. h_page k = h_page x) (srt rows) =
        filter (\<lambda>x. h_page k = h_page x) rows"
      by (simp add: filter_same_key)
  qed
  then show ?thesis by simp
qed

lemma frame_pages:
  assumes srt: "sorts_by_page srt" and F: "headings_frame srt hs = Inr F"
  shows "h_page ` set F = h_page ` set hs" and "sorted (map h_page F)"
proof -
  have eq: "map h_page F = map h_page (srt (DataFrame hs))"
    using headings_frame_Inr(2) [OF F]
    by (simp add: ffill_page set_chapter_page)
  then show "sorted (map h_page F)" by (simp add: sorts_by_pageD(1) [OF srt])
  from eq have "set (map h_page F) = set (map h_page (DataFrame hs))"
    by (simp add: sorts_by_pageD(3) [OF srt])
  then show "h_page ` set F = h_page ` set hs" by (simp add: DataFrame_page)
qed

lemma frame_labels:
  assumes srt: "sorts_by_page srt" and F: "headings_frame srt hs = Inr F"
  shows "distinct (map h_label F)"
proof -
  have "distinct (map h_label (DataFrame hs))" by (simp add: DataFrame_label)
  moreover have "mset (map h_label (srt (DataFrame hs))) = mset (map h_label (DataFrame hs))"
    by (simp add: sorts_by_pageD(2) [OF srt])
  ultimately have "distinct (map h_label (srt (DataFrame hs)))"
    by (metis mset_eq_imp_distinct_iff)
  then show ?thesis
    using headings_frame_Inr(2) [OF F]
    by (simp add: ffill_label set_chapter_label)
qed

subsection \<open>The section of an exercise\<close>

lemma enrich_row_no_preceding:
  "\<forall>r\<in>set F. e_page e \<le> h_page r \<Longrightarrow> enrich_row F e = Inl ValueError"
  by (simp add: enrich_row_def section_of_none)

lemma enrich_row_Inr:
  assumes "enrich_row F e = Inr e'"
  shows "\<exists>s. section_of F (e_page e) = Inr s \<and>
             e' = e\<lparr>e_chapter := h_chapter s, e_tags := e_tags e @ '','' @ chapter_content F s\<rparr>"
  using assms by (auto simp: enrich_row_def split: sum.splits)

lemma enrich_with_toc_no_preceding:
  assumes srt: "sorts_by_page srt" and pre: "\<forall>h\<in>set hs. e_page e \<le> h_page h"
  shows "enrich_with_toc srt hs (e # es) = Inl (if hs = [] then KeyError else ValueError)"
proof (cases "hs = []")
  case True
  then show ?thesis by (simp add: enrich_with_toc_def headings_frame_def)
next
  case False
  then obtain F where F: "headings_frame srt hs = Inr F" by (simp add: headings_frame_def)
  from pre frame_pages(1) [OF srt F] have "\<forall>r\<in>set F. e_page e \<le> h_page r"
    by (metis imageE imageI)
  then show ?thesis using F False by (simp add: enrich_with_toc_def enrich_row_no_preceding)
qed

lemma greatest_page_before_eq:
  "h_page ` set F = h_page ` set hs \<Longrightarrow> greatest_page_before F p = Max {h_page h |h. h \<in> set hs \<and> h_page h < p}"
proof -
  assume a: "h_page ` set F = h_page ` set hs"
  have "set (map h_page (filter (\<lambda>r. h_page r < p) F)) = {x \<in> h_page ` set F. x < p}" by auto
  also have "\<dots> = {h_page h |h. h \<in> set hs \<and> h_page h < p}" unfolding a by auto
  finally show ?thesis by (simp add: greatest_page_before_def)
qed

lemma section_of_nearest_first:
  assumes "distinct (map h_label F)" and "\<exists>r\<in>set F. h_page r < P"
  shows "section_of F P = Inr (nearest_heading_first F P)"
proof -
  have "set (map h_page (filter (\<lambda>r. h_page r < P) F)) = h_page ` {r \<in> set F. h_page r < P}" by auto
  then show ?thesis
    using section_of_first [OF assms] by (simp add: nearest_heading_first_def greatest_page_before_def)
qed

text \<open>
  What the loop does for every sort by page: when every exercise has a heading on a page
  before its own, the enricher returns, and each exercise gets the chapter field of the
  first row of the sorted frame whose page is the greatest one strictly below the exercise's
  page.
\<close>

lemma enrich_chapter_of_first_nearest_heading:
  assumes srt: "sorts_by_page srt"
    and F: "headings_frame srt hs = Inr F"
    and pre: "\<forall>e\<in>set exs. \<exists>h\<in>set hs. h_page h < e_page e"
  shows "sorted (map h_page F) \<and>
         (\<exists>exs'. enrich_with_toc srt hs exs = Inr exs' \<and> length exs' = length exs \<and>
            (\<forall>i<length exs.
               e_chapter (exs' ! i) = h_chapter (nearest_heading_first F (e_page (exs ! i))) \<and>
               h_page (nearest_heading_first F (e_page (exs ! i))) =
                 Max {h_page h |h. h \<in> set hs \<and> h_page h < e_page (exs ! i)}))"
proof -
  have sec: "section_of F (e_page e) = Inr (nearest_heading_first F (e_page e))" if "e \<in> set exs" for e
  proof -
    from pre that obtain h where "h \<in> set hs" "h_page h < e_page e" by auto
    then have "\<exists>r\<in>set F. h_page r < e_page e"
      using frame_pages(1) [OF srt F] by (metis imageE imageI)
    then show ?thesis by (rule section_of_nearest_first [OF frame_labels [OF srt F]])
  qed
  then have "\<exists>y. enrich_row F e = Inr y" if "e \<in> set exs" for e
    using that by (simp add: enrich_row_def)
  then obtain exs' where exs': "map_raise (enrich_row F) exs = Inr exs'"
    using map_raise_all_Inr [of exs "enrich_row F"] by auto
  have len: "length exs' = length exs" by (rule map_raise_length [OF exs'])
  have "e_chapter (exs' ! i) = h_chapter (nearest_heading_first F (e_page (exs ! i))) \<and>
        h_page (nearest_heading_first F (e_page (exs ! i))) =
          Max {h_page h |h. h \<in> set hs \<and> h_page h < e_page (exs ! i)}" if i: "i < length exs" for i
  proof -
    let ?e = "exs ! i"
    from i have mem: "?e \<in> set exs" by simp
    from enrich_row_Inr [OF map_raise_nth [OF exs' i]] sec [OF mem]
    have "e_chapter (exs' ! i) = h_chapter (nearest_heading_first F (e_page ?e))"
      by auto
    moreover
    from pre mem obtain h where h: "h \<in> set hs" "h_page h < e_page ?e" by auto
    let ?m = "greatest_page_before F (e_page ?e)"
    have m: "?m = Max {h_page h |h. h \<in> set hs \<and> h_page h < e_page ?e}"
      by (rule greatest_page_before_eq [OF frame_pages(1) [OF srt F]])
    have "?m \<in> {h_page h |h. h \<in> set hs \<and> h_page h < e_page ?e}"
      unfolding m using h by (intro Max_in) auto
    then have "?m \<in> h_page ` set F" using frame_pages(1) [OF srt F] by auto
    then have "filter (\<lambda>r. h_page r = ?m) F \<noteq> []" by (auto simp: filter_empty_conv)
    then have "hd (filter (\<lambda>r. h_page r = ?m) F) \<in> set (filter (\<lambda>r. h_page r = ?m) F)"
      by (rule hd_in_set)
    then have "h_page (nearest_heading_first F (e_page ?e)) = ?m"
      by (simp add: nearest_heading_first_def)
    ultimately show ?thesis using m by simp
  qed
  with exs' len F frame_pages(2) [OF srt F] show ?thesis by (simp add: enrich_with_toc_def)
qed

subsection \<open>Chapter and tags of an exercise\<close>

text \<open>The frame of the spec's example: no two headings share a page, and every sort by page
  gives the same frame.\<close>

lemma toc_example_frame:
  assumes "sorts_by_page srt"
  shows "headings_frame srt toc_example =
     Inr [\<lparr>h_title = ''Ch1'', h_page = 1, h_level = 0, h_label = 0, h_chapter = Some ''Ch1''\<rparr>,
          \<lparr>h_title = ''1.2'', h_page = 5, h_level = 1, h_label = 2, h_chapter = Some ''Ch1''\<rparr>,
          \<lparr>h_title = ''Ch2'', h_page = 10, h_level = 0, h_label = 1, h_chapter = Some ''Ch2''\<rparr>]"
proof -
  have "srt (DataFrame toc_example) = sort_key h_page (DataFrame toc_example)"
    by (rule sort_distinct_pages [OF assms]) (simp add: DataFrame_page toc_example_def)
  then show ?thesis
    by (simp add: headings_frame_def) (simp add: toc_example_def DataFrame_def set_chapter_def)
qed

text \<open>The two frames of the table of contents with two chapters on page 1.\<close>

lemma toc_tie_frame:
  "headings_frame stable_sort toc_tie =
     Inr [\<lparr>h_title = ''A'', h_page = 1, h_level = 0, h_label = 0, h_chapter = Some ''A''\<rparr>,
          \<lparr>h_title = ''B'', h_page = 1, h_level = 0, h_label = 1, h_chapter = Some ''B''\<rparr>]"
  by (simp add: toc_tie_def headings_frame_def DataFrame_def stable_sort_def set_chapter_def)

lemma toc_tie_frame_reversed:
  "headings_frame sort_ties_reversed toc_tie =
     Inr [\<lparr>h_title = ''B'', h_page = 1, h_level = 0, h_label = 1, h_chapter = Some ''B''\<rparr>,
          \<lparr>h_title = ''A'', h_page = 1, h_level = 0, h_label = 0, h_chapter = Some ''A''\<rparr>]"
  by (simp add: toc_tie_def headings_frame_def DataFrame_def sort_ties_reversed_def set_chapter_def)

text \<open>The frame in which the section 2.1 comes before its chapter, both on page 10: the
  forward fill gives the section the chapter Ch1.\<close>

lemma toc_shared_page_frame_reversed:
  "headings_frame sort_ties_reversed toc_shared_page =
     Inr [\<lparr>h_title = ''Ch1'', h_page = 1, h_level = 0, h_label = 0, h_chapter = Some ''Ch1''\<rparr>,
          \<lparr>h_title = ''1.1'', h_page = 3, h_level = 1, h_label = 2, h_chapter = Some ''Ch1''\<rparr>,
          \<lparr>h_title = ''2.1'', h_page = 10, h_level = 1, h_label = 3, h_chapter = Some ''Ch1''\<rparr>,
          \<lparr>h_title = ''Ch2'', h_page = 10, h_level = 0, h_label = 1, h_chapter = Some ''Ch2''\<rparr>]"
  by (simp add: toc_shared_page_def headings_frame_def DataFrame_def sort_ties_reversed_def
      set_chapter_def)

lemma toc_shared_page_frame:
  "headings_frame stable_sort toc_shared_page =
     Inr [\<lparr>h_title = ''Ch1'', h_page = 1, h_level = 0, h_label = 0, h_chapter = Some ''Ch1''\<rparr>,
          \<lparr>h_title = ''1.1'', h_page = 3, h_level = 1, h_label = 2, h_chapter = Some ''Ch1''\<rparr>,
          \<lparr>h_title = ''Ch2'', h_page = 10, h_level = 0, h_label = 1, h_chapter = Some ''Ch2''\<rparr>,
          \<lparr>h_title = ''2.1'', h_page = 10, h_level = 1, h_label = 3, h_chapter = Some ''Ch2''\<rparr>]"
  by (simp add: toc_shared_page_def headings_frame_def DataFrame_def stable_sort_def
      set_chapter_def)

text \<open>The spec's example: with the headings Ch1 on page 1, 1.2 on page 5 and Ch2 on page
  10, an exercise on page 7 gets the chapter Ch1.\<close>

lemma enrich_chapter_example:
  "\<exists>exs'. enrich_with_toc stable_sort toc_example [exercise_on 7 [''limits'']] = Inr exs' \<and>
          e_chapter (exs' ! 0) = Some ''Ch1''"
proof -
  have pre: "\<forall>e\<in>set [exercise_on 7 [''limits'']]. \<exists>h\<in>set toc_example. h_page h < e_page e"
    by (simp add: toc_example_def exercise_on_def stamp_def)
  have "h_chapter (nearest_heading_first
          [\<lparr>h_title = ''Ch1'', h_page = 1, h_level = 0, h_label = 0, h_chapter = Some ''Ch1''\<rparr>,
           \<lparr>h_title = ''1.2'', h_page = 5, h_level = 1, h_label = 2, h_chapter = Some ''Ch1''\<rparr>,
           \<lparr>h_title = ''Ch2'', h_page = 10, h_level = 0, h_label = 1, h_chapter = Some ''Ch2''\<rparr>]
          (e_page (exercise_on 7 [''limits'']))) = Some ''Ch1''"
    by (simp add: nearest_heading_first_def greatest_page_before_def exercise_on_def stamp_def)
  with enrich_chapter_of_first_nearest_heading [OF sorts_by_page_stable
      toc_example_frame [OF sorts_by_page_stable] pre]
  show ?thesis by auto
qed

text \<open>The two orders in which the two rows of \<open>toc_tie\<close> can come out of a sort.\<close>

lemma mset_two: "mset xs = mset [a, b] \<Longrightarrow> xs = [a, b] \<or> xs = [b, a]"
proof -
  assume m: "mset xs = mset [a, b]"
  then have "length xs = 2" by (metis length_Cons list.size(3) mset_eq_length numeral_2_eq_2)
  then obtain x y where xs: "xs = [x, y]"
    by (metis (no_types) Suc_length_conv length_0_conv numeral_2_eq_2)
  with m have "{#x, y#} = {#a, b#}" by simp
  then show ?thesis unfolding xs by (auto simp: add_eq_conv_ex)
qed

lemma toc_tie_frames:
  assumes "sorts_by_page srt"
  shows "headings_frame srt toc_tie = headings_frame stable_sort toc_tie \<or>
         headings_frame srt toc_tie = headings_frame sort_ties_reversed toc_tie"
proof -
  have "mset (srt (DataFrame toc_tie)) = mset (DataFrame toc_tie)"
    by (rule sorts_by_pageD(2) [OF assms])
  then have "srt (DataFrame toc_tie) = stable_sort (DataFrame toc_tie) \<or>
             srt (DataFrame toc_tie) = sort_ties_reversed (DataFrame toc_tie)"
    using mset_two [of "srt (DataFrame toc_tie)"]
    by (simp add: toc_tie_def DataFrame_def stable_sort_def sort_ties_reversed_def)
  then show ?thesis by (auto simp: headings_frame_def)
qed

text \<open>
  C6: two chapters A and B start on page 1, the greatest page below 2. The claim gives the
  exercise on page 2 the chapter of the last of the two rows in the sorted frame.
  \<open>idxmax\<close> returns the first row that holds the maximum: whatever order the sort
  leaves the two rows in, the exercise gets the chapter of the first of them, which is not
  that of the last.
\<close>

theorem enrich_chapter_tie_takes_first_row:
  assumes "sorts_by_page srt"
  shows "\<exists>F. headings_frame srt toc_tie = Inr F \<and>
           enrich_with_toc srt toc_tie [exercise_on 2 [''sets'']] =
             Inr [(exercise_on 2 [''sets''])
                    \<lparr>e_chapter := h_chapter (hd F),
                     e_tags := ''sets,'' @ the (h_chapter (hd F))\<rparr>] \<and>
           nearest_heading_last F 2 = last F \<and>
           h_chapter (hd F) \<noteq> h_chapter (last F)"
proof -
  have a: "enrich_with_toc stable_sort toc_tie [exercise_on 2 [''sets'']] =
             Inr [(exercise_on 2 [''sets''])\<lparr>e_chapter := Some ''A'', e_tags := ''sets,A''\<rparr>]"
    by (simp add: toc_tie_frame enrich_with_toc_def enrich_row_def section_of_def loc_def
        chapter_content_def chapter_eq_def exercise_on_def stamp_def)
  have b: "enrich_with_toc sort_ties_reversed toc_tie [exercise_on 2 [''sets'']] =
             Inr [(exercise_on 2 [''sets''])\<lparr>e_chapter := Some ''B'', e_tags := ''sets,B''\<rparr>]"
    by (simp add: toc_tie_frame_reversed enrich_with_toc_def enrich_row_def section_of_def loc_def
        chapter_content_def chapter_eq_def exercise_on_def stamp_def)
  have la: "nearest_heading_last
     [\<lparr>h_title = ''A'', h_page = 1, h_level = 0, h_label = 0, h_chapter = Some ''A''\<rparr>,
      \<lparr>h_title = ''B'', h_page = 1, h_level = 0, h_label = 1, h_chapter = Some ''B''\<rparr>] 2 =
      \<lparr>h_title = ''B'', h_page = 1, h_level = 0, h_label = 1, h_chapter = Some ''B''\<rparr>"
    by (simp add: nearest_heading_last_def greatest_page_before_def)
  have lb: "nearest_heading_last
     [\<lparr>h_title = ''B'', h_page = 1, h_level = 0, h_label = 1, h_chapter = Some ''B''\<rparr>,
      \<lparr>h_title = ''A'', h_page = 1, h_level = 0, h_label = 0, h_chapter = Some ''A''\<rparr>] 2 =
      \<lparr>h_title = ''A'', h_page = 1, h_level = 0, h_label = 0, h_chapter = Some ''A''\<rparr>"
    by (simp add: nearest_heading_last_def greatest_page_before_def)
  have eq: "enrich_with_toc srt toc_tie exs = enrich_with_toc srt' toc_tie exs"
    if "headings_frame srt toc_tie = headings_frame srt' toc_tie" for srt' exs
    using that by (simp add: enrich_with_toc_def)
  from toc_tie_frames [OF assms] show ?thesis
  proof
    assume f: "headings_frame srt toc_tie = headings_frame stable_sort toc_tie"
    show ?thesis
      unfolding eq [OF f] f toc_tie_frame a by (simp add: la del: One_nat_def)
  next
    assume f: "headings_frame srt toc_tie = headings_frame sort_ties_reversed toc_tie"
    show ?thesis
      unfolding eq [OF f] f toc_tie_frame_reversed b by (simp add: lb del: One_nat_def)
  qed
qed

text \<open>Witness of C6: the stable sort leaves A first, and the exercise gets A where the last
  row of the tie is B.\<close>

theorem enrich_chapter_tie_example:
  "enrich_with_toc stable_sort toc_tie [exercise_on 2 [''sets'']] =
     Inr [(exercise_on 2 [''sets''])\<lparr>e_chapter := Some ''A'', e_tags := ''sets,A''\<rparr>] \<and>
   h_chapter (nearest_heading_last
     [\<lparr>h_title = ''A'', h_page = 1, h_level = 0, h_label = 0, h_chapter = Some ''A''\<rparr>,
      \<lparr>h_title = ''B'', h_page = 1, h_level = 0, h_label = 1, h_chapter = Some ''B''\<rparr>] 2) = Some ''B''"
  using enrich_chapter_tie_takes_first_row [OF sorts_by_page_stable]
  by (simp add: toc_tie_frame)

text \<open>
  The same defect where a chapter and its first section start on one page. When the sort
  leaves the section 2.1 before the chapter Ch2, the forward fill gives 2.1 the chapter Ch1,
  and an exercise on page 12, in chapter 2, gets the chapter Ch1 and the titles of chapter 1
  as tags. The last row of the tie is Ch2. With the stable sort the exercise gets Ch2.
\<close>

lemma enrich_chapter_shared_page:
  "enrich_with_toc sort_ties_reversed toc_shared_page [exercise_on 12 [''t'']] =
     Inr [(exercise_on 12 [''t''])\<lparr>e_chapter := Some ''Ch1'', e_tags := ''t,Ch1,1.1,2.1''\<rparr>] \<and>
   h_chapter (nearest_heading_last
     [\<lparr>h_title = ''Ch1'', h_page = 1, h_level = 0, h_label = 0, h_chapter = Some ''Ch1''\<rparr>,
      \<lparr>h_title = ''1.1'', h_page = 3, h_level = 1, h_label = 2, h_chapter = Some ''Ch1''\<rparr>,
      \<lparr>h_title = ''2.1'', h_page = 10, h_level = 1, h_label = 3, h_chapter = Some ''Ch1''\<rparr>,
      \<lparr>h_title = ''Ch2'', h_page = 10, h_level = 0, h_label = 1, h_chapter = Some ''Ch2''\<rparr>] 12) =
     Some ''Ch2'' \<and>
   enrich_with_toc stable_sort toc_shared_page [exercise_on 12 [''t'']] =
     Inr [(exercise_on 12 [''t''])\<lparr>e_chapter := Some ''Ch2'', e_tags := ''t,Ch2,2.1''\<rparr>]"
  by (simp add: toc_shared_page_frame toc_shared_page_frame_reversed enrich_with_toc_def
      enrich_row_def section_of_def loc_def chapter_content_def chapter_eq_def exercise_on_def
      stamp_def nearest_heading_last_def greatest_page_before_def)

text \<open>
  C1: an exercise with no heading on a page before its own. The claim has the enricher leave
  the chapter empty, append no tag and raise nothing. The code raises, for every sort by
  page: with the spec's headings and an exercise on page 1 the series
  \<open>headings.page[headings.page < e.page]\<close> is empty and \<open>idxmax\<close> raises ValueError;
  with no heading at all the frame has no column \<open>page\<close> and \<open>sort_values\<close> raises
  KeyError.
\<close>

theorem enrich_raises_without_preceding_heading:
  assumes "sorts_by_page srt"
  shows "enrich_with_toc srt toc_example [exercise_on 1 [''limits'']] = Inl ValueError \<and>
         enrich_with_toc srt [] [exercise_on 1 [''limits'']] = Inl KeyError"
proof -
  have "enrich_with_toc srt toc_example [exercise_on 1 [''limits'']] = Inl ValueError"
    by (simp add: toc_example_frame [OF assms] enrich_with_toc_def enrich_row_def section_of_def
        exercise_on_def stamp_def)
  moreover have "enrich_with_toc srt [] [exercise_on 1 [''limits'']] = Inl KeyError"
    by (simp add: enrich_with_toc_def headings_frame_def)
  ultimately show ?thesis by simp
qed

text \<open>Witness of C1: the stable sort.\<close>

theorem enrich_raises_example:
  "enrich_with_toc stable_sort toc_example [exercise_on 1 [''limits'']] = Inl ValueError \<and>
   enrich_with_toc stable_sort [] [exercise_on 1 [''limits'']] = Inl KeyError"
  using enrich_raises_without_preceding_heading [OF sorts_by_page_stable] by simp

lemma section_of_mem: "section_of F P = Inr s \<Longrightarrow> s \<in> set F"
  by (auto simp: section_of_def loc_def find_Some_iff split: sum.splits option.splits)

lemma chapter_eq_Some: "chapter_eq x (Some C) = (x = Some C)"
  by (cases x) (auto simp: chapter_eq_def)

text \<open>
  What the loop does to the tags, for every frame: an exercise that gets the chapter \<open>C\<close>
  has, as its tags, the string it had (the AI-proposed tags, comma-joined, as line 326 left
  them), then a comma, then the titles of the rows of the frame whose chapter is \<open>C\<close>,
  comma-joined in the order of the frame. When the AI proposed a tag at all, this is the
  comma-joined list of the AI's tags followed by those titles.
\<close>

lemma enrich_tags_appended:
  assumes F: "headings_frame srt hs = Inr F"
    and run: "enrich_with_toc srt hs exs = Inr exs'"
    and i: "i < length exs"
    and C: "e_chapter (exs' ! i) = Some C"
    and ai: "e_tags (exs ! i) = join '','' ai_tags"
  shows "e_tags (exs' ! i) =
           join '','' ai_tags @ '','' @ join '','' (map h_title (filter (\<lambda>r. h_chapter r = Some C) F)) \<and>
         (ai_tags \<noteq> [] \<longrightarrow>
            e_tags (exs' ! i) =
              join '','' (ai_tags @ map h_title (filter (\<lambda>r. h_chapter r = Some C) F)))"
proof -
  let ?titles = "map h_title (filter (\<lambda>r. h_chapter r = Some C) F)"
  from run F have "map_raise (enrich_row F) exs = Inr exs'" by (simp add: enrich_with_toc_def)
  from enrich_row_Inr [OF map_raise_nth [OF this i]]
  obtain s where s: "section_of F (e_page (exs ! i)) = Inr s"
    and e': "exs' ! i = (exs ! i)\<lparr>e_chapter := h_chapter s,
               e_tags := e_tags (exs ! i) @ '','' @ chapter_content F s\<rparr>"
    by auto
  from e' C have sC: "h_chapter s = Some C" by simp
  then have cc: "chapter_content F s = join '','' ?titles"
    by (simp add: chapter_content_def chapter_eq_Some)
  from e' cc ai have tags: "e_tags (exs' ! i) = join '','' ai_tags @ '','' @ join '','' ?titles"
    by simp
  from section_of_mem [OF s] sC have "?titles \<noteq> []" by (auto simp: filter_empty_conv)
  then have "ai_tags \<noteq> [] \<longrightarrow> join '','' (ai_tags @ ?titles) = join '','' ai_tags @ '','' @ join '','' ?titles"
    by (simp add: join_append)
  with tags show ?thesis by simp
qed

text \<open>
  When the AI proposed no tag, the string the exercise had is empty, and the tags after the
  loop start with the comma: they are never the comma-joined titles alone, whatever the
  headings and the sort.
\<close>

lemma enrich_tags_leading_comma:
  assumes F: "headings_frame srt hs = Inr F"
    and run: "enrich_with_toc srt hs exs = Inr exs'"
    and i: "i < length exs"
    and C: "e_chapter (exs' ! i) = Some C"
    and ai: "e_tags (exs ! i) = join '','' []"
  shows "e_tags (exs' ! i) =
           '','' @ join '','' (map h_title (filter (\<lambda>r. h_chapter r = Some C) F)) \<and>
         e_tags (exs' ! i) \<noteq>
           join '','' ([] @ map h_title (filter (\<lambda>r. h_chapter r = Some C) F))"
proof -
  let ?titles = "map h_title (filter (\<lambda>r. h_chapter r = Some C) F)"
  from enrich_tags_appended [OF F run i C ai]
  have tags: "e_tags (exs' ! i) = '','' @ join '','' ?titles" by simp
  then have "length (e_tags (exs' ! i)) \<noteq> length (join '','' ([] @ ?titles))" by simp
  then have "e_tags (exs' ! i) \<noteq> join '','' ([] @ ?titles)" by metis
  with tags show ?thesis by simp
qed

text \<open>
  C9: an exercise for which the AI proposed no tag. The spec's headings give the exercise on
  page 7 the chapter Ch1, whose headings are Ch1 and 1.2. The claim has the tags be the
  AI's tags, none, followed by the two titles, which is \<open>Ch1,1.2\<close>. The code appends
  \<open>',' + chapter_content\<close> to the empty string whatever it holds, and stores
  \<open>,Ch1,1.2\<close>: the tag list starts with an empty tag. This holds for every sort by page.
\<close>

theorem enrich_tags_without_ai_tag:
  assumes "sorts_by_page srt"
  shows "enrich_with_toc srt toc_example [exercise_on 7 []] =
           Inr [(exercise_on 7 [])\<lparr>e_chapter := Some ''Ch1'', e_tags := '',Ch1,1.2''\<rparr>] \<and>
         e_tags (exercise_on 7 []) = join '','' [] \<and>
         join '','' ([] @ [''Ch1'', ''1.2'']) = ''Ch1,1.2'' \<and>
         '',Ch1,1.2'' \<noteq> join '','' ([] @ [''Ch1'', ''1.2''])"
  by (simp add: toc_example_frame [OF assms] enrich_with_toc_def enrich_row_def section_of_def
      loc_def chapter_content_def chapter_eq_def exercise_on_def stamp_def)

text \<open>Witness of C9: the stable sort.\<close>

theorem enrich_tags_without_ai_tag_example:
  "enrich_with_toc stable_sort toc_example [exercise_on 7 []] =
     Inr [(exercise_on 7 [])\<lparr>e_chapter := Some ''Ch1'', e_tags := '',Ch1,1.2''\<rparr>]"
  using enrich_tags_without_ai_tag [OF sorts_by_page_stable] by simp

text \<open>With two AI-proposed tags the stored string is the list the claim describes.\<close>

lemma enrich_tags_example:
  "\<exists>exs'. enrich_with_toc stable_sort toc_example [exercise_on 7 [''limits'', ''series'']] = Inr exs' \<and>
          e_tags (exs' ! 0) = ''limits,series,Ch1,1.2''"
proof -
  note frame = toc_example_frame [OF sorts_by_page_stable]
  obtain exs' where run:
    "enrich_with_toc stable_sort toc_example [exercise_on 7 [''limits'', ''series'']] = Inr exs'"
    and C: "e_chapter (exs' ! 0) = Some ''Ch1''"
    by (simp add: frame enrich_with_toc_def enrich_row_def section_of_def loc_def
      exercise_on_def stamp_def)
  have ai: "e_tags ([exercise_on 7 [''limits'', ''series'']] ! 0) = join '','' [''limits'', ''series'']"
    by (simp add: exercise_on_def stamp_def)
  from enrich_tags_appended [OF frame run _ C ai] run
  show ?thesis by simp
qed

subsection \<open>Grading\<close>

text \<open>
  C4: when the response to a grading request does not parse as the expected JSON object,
  \<open>extract_solution\<close> raises to its caller, the handler of \<open>solutions_page\<close> shows the
  error, and the \<open>attempts\<close> table is what it was: no row is written.
\<close>

theorem grading_failure_writes_no_attempt:
  assumes "\<not> parses_as_solution r"
  shows "(\<exists>err. extract_solution r = Inl err) \<and>
         (\<exists>err. process_solution r exercise current_date attempts = (ErrorProcessing err, attempts))"
proof -
  from assms obtain err where "extract_solution r = Inl err"
    by (auto simp: parses_as_solution_def extract_solution_def
        split: reply.splits solution_json.splits)
  then show ?thesis by (simp add: process_solution_def)
qed

text \<open>Witness of C4: a response that is not JSON, with one attempt in the table.\<close>

theorem grading_failure_example:
  "extract_solution NotJson = Inl JSONDecodeError \<and>
   process_solution NotJson (''book'', 7, 1) ''2025-01-02'' [attempt_on 7 False ''2025-01-01''] =
     (ErrorProcessing JSONDecodeError, [attempt_on 7 False ''2025-01-01''])"
proof -
  have "\<not> parses_as_solution NotJson" by (simp add: parses_as_solution_def)
  from grading_failure_writes_no_attempt [OF this, of "(''book'', 7, 1)" "''2025-01-02''"
      "[attempt_on 7 False ''2025-01-01'']"]
  show ?thesis by (auto simp: extract_solution_def process_solution_def)
qed

subsection \<open>Page selection\<close>

text \<open>
  C7: the claim has the selector return a deduplicated sequence of pages. \<open>pdfgrep -n\<close>
  prints one line for every matching line of the document, and \<open>get_exercise_pages\<close>
  returns the page of every line: a page with two marker lines is listed twice.
\<close>

theorem get_exercise_pages_repeats_page:
  "get_exercise_pages [''6:(esx10) Exercise 2'' @ [CHR 0x0A], ''6:(esx10) Exercise 3'' @ [CHR 0x0A]] =
     Inr [6, 6]"
  by (simp add: get_exercise_pages_def py_int_def split_first_def strip_def is_space_def digit_of_def)

text \<open>What follows from it in \<open>process_document\<close>: the page is processed twice and its
  exercise is stored twice.\<close>

lemma process_document_stores_repeated_page_twice:
  assumes "sorts_by_page srt"
  shows "get_exercise_pages (d_marker_lines book_two_lines) = Inr [6, 6] \<and>
   process_document srt book_ai now book_two_lines [] =
     (Some 2, [book_row now, book_row now],
      [Converting, Identifying, Checking, Extracting, ProcessingPage 6, ProcessingPage 6,
       Saving, Complete])"
proof -
  have pages: "get_exercise_pages (d_marker_lines book_two_lines) = Inr [6, 6]"
    by (simp add: book_two_lines_def get_exercise_pages_def py_int_def split_first_def strip_def
        is_space_def digit_of_def)
  have fields: "d_reference book_two_lines = ''book''"
    "d_page_imgs book_two_lines = [1, 2, 3, 4, 5, 6, 7]" "d_toc book_two_lines = toc_example"
    by (simp_all add: book_two_lines_def book_def)
  have "process_document srt book_ai now book_two_lines [] =
     (Some 2, [book_row now, book_row now],
      [Converting, Identifying, Checking, Extracting, ProcessingPage 6, ProcessingPage 6,
       Saving, Complete])"
    by (simp add: process_document_def candidate_pages_def new_pages_def existing_pages_def
        process_page_def py_index_def extract_exercises_def stamp_def
        enrich_with_toc_def enrich_row_def section_of_def loc_def chapter_content_def
        chapter_eq_def save_exercises_def List.map_filter_simps bind_error_def sqlite_integer_def
        pages fields book_ai_def toc_example_frame [OF assms] book_row_def)
  with pages show ?thesis by simp
qed

subsection \<open>The exercise query\<close>

lemma sql_max_stored_bool:
  "sql_max (map stored_bool bs) = Some 0 \<longleftrightarrow> bs \<noteq> [] \<and> (\<forall>b\<in>set bs. \<not> b)"
proof (cases bs)
  case Nil
  then show ?thesis by simp
next
  case (Cons b bs')
  have "fold max (map stored_bool bs') (stored_bool b) =
          Max (set (stored_bool b # map stored_bool bs'))"
    by (rule Max.set_eq_fold [symmetric])
  then have "fold max (map stored_bool bs') (stored_bool b) = Max (stored_bool ` set (b # bs'))"
    by simp
  moreover have "Max (stored_bool ` set (b # bs')) = 0 \<longleftrightarrow> (\<forall>c\<in>set (b # bs'). \<not> c)"
  proof
    assume m: "Max (stored_bool ` set (b # bs')) = 0"
    show "\<forall>c\<in>set (b # bs'). \<not> c"
    proof
      fix c assume "c \<in> set (b # bs')"
      then have "stored_bool c \<le> Max (stored_bool ` set (b # bs'))" by (intro Max_ge) auto
      with m show "\<not> c" by (auto simp: stored_bool_def split: if_splits)
    qed
  next
    assume "\<forall>c\<in>set (b # bs'). \<not> c"
    then have "stored_bool ` set (b # bs') = {0}" by (auto simp: stored_bool_def)
    then show "Max (stored_bool ` set (b # bs')) = 0" by (simp only: Max_singleton)
  qed
  ultimately show ?thesis using Cons by (simp del: list.set set_simps)
qed


lemma map_filter_all_Some:
  "(\<And>k. k \<in> set ks \<Longrightarrow> g k \<noteq> None) \<Longrightarrow> List.map_filter g ks = map (\<lambda>k. the (g k)) ks"
  by (induction ks) (auto simp: List.map_filter_simps split: option.splits)

lemma group_row_Some:
  assumes "k \<in> exercise_key ` set exercises"
  shows "\<exists>r. group_row exercises attempts k = Some r \<and> exercise_key r = k \<and>
             exercise.truncate r \<in> set exercises \<and>
             is_solved r = sql_max (map (\<lambda>a. stored_bool (a_is_solution_correct a))
                                      (joined_attempts attempts k))"
proof -
  define g where "g = filter (\<lambda>e. exercise_key e = k) exercises"
  from assms have "g \<noteq> []" by (auto simp: g_def filter_empty_conv)
  then obtain e es where g: "g = e # es" by (cases g) auto
  define c where "c = (if joined_attempts attempts k = [] then last (e # es) else e)"
  have "c \<in> set g"
    unfolding c_def g using last_in_set [of "e # es"] by auto
  then have c: "c \<in> set exercises" "exercise_key c = k" by (auto simp: g_def)
  have "exercise.truncate (exercise.extend c x) = c" for x :: "\<lparr>attempt_count :: nat, is_solved :: int option\<rparr>"
    by (cases c) (simp add: exercise.extend_def exercise.truncate_def)
  moreover have "exercise_key (exercise.extend c x) = exercise_key c" for x :: "\<lparr>attempt_count :: nat, is_solved :: int option\<rparr>"
    by (simp add: exercise_key_def exercise.extend_def)
  moreover have "group_row exercises attempts k =
      Some (exercise.extend c
        \<lparr>attempt_count = length (remdups (map a_attempted_on (joined_attempts attempts k))),
         is_solved = sql_max (map (\<lambda>a. stored_bool (a_is_solution_correct a))
                                  (joined_attempts attempts k))\<rparr>)"
    using g by (simp add: group_row_def g_def [symmetric] c_def)
  ultimately show ?thesis
    using c by (simp add: exercise.extend_def)
qed

lemma having_incorrect: "having [] [] [''incorrect''] r = (is_solved r = Some 0)"
  by (simp add: having_def)

text \<open>
  C10: with the attempt status \<open>incorrect\<close> alone, the query returns one row for each key
  of the \<open>exercises\<close> table that has at least one attempt and no correct attempt, and for
  no other key; every row is an exercise of the table.
\<close>

theorem get_exercises_incorrect:
  "set (map exercise_key (get_exercises exercises attempts [] [] [''incorrect''])) =
     {k \<in> exercise_key ` set exercises.
        (\<exists>a\<in>set attempts. attempt_key a = k) \<and>
        (\<forall>a\<in>set attempts. attempt_key a = k \<longrightarrow> \<not> a_is_solution_correct a)} \<and>
   distinct (map exercise_key (get_exercises exercises attempts [] [] [''incorrect''])) \<and>
   (\<forall>r\<in>set (get_exercises exercises attempts [] [] [''incorrect'']).
      exercise.truncate r \<in> set exercises)"
proof -
  let ?keys = "sort (remdups (map exercise_key exercises))"
  let ?g = "group_row exercises attempts"
  let ?row = "\<lambda>k. the (?g k)"
  let ?inc = "\<lambda>k. (\<exists>a\<in>set attempts. attempt_key a = k) \<and>
                   (\<forall>a\<in>set attempts. attempt_key a = k \<longrightarrow> \<not> a_is_solution_correct a)"
  have row: "exercise_key (?row k) = k \<and> exercise.truncate (?row k) \<in> set exercises \<and>
             having [] [] [''incorrect''] (?row k) = ?inc k" and some: "?g k \<noteq> None"
    if "k \<in> set ?keys" for k
  proof -
    from that have "k \<in> exercise_key ` set exercises" by simp
    from group_row_Some [OF this, of attempts] obtain r where r: "?g k = Some r"
      "exercise_key r = k" "exercise.truncate r \<in> set exercises"
      "is_solved r = sql_max (map (\<lambda>a. stored_bool (a_is_solution_correct a))
                                  (joined_attempts attempts k))"
      by auto
    have "sql_max (map stored_bool (map a_is_solution_correct (joined_attempts attempts k))) = Some 0
            \<longleftrightarrow> ?inc k"
      unfolding sql_max_stored_bool by (auto simp: joined_attempts_def filter_empty_conv)
    with r show "exercise_key (?row k) = k \<and> exercise.truncate (?row k) \<in> set exercises \<and>
             having [] [] [''incorrect''] (?row k) = ?inc k"
      by (simp add: having_incorrect comp_def)
    from r show "?g k \<noteq> None" by simp
  qed
  have res: "get_exercises exercises attempts [] [] [''incorrect''] =
          filter (having [] [] [''incorrect'']) (map ?row ?keys)"
  proof -
    have "List.map_filter ?g ?keys = map ?row ?keys"
      by (rule map_filter_all_Some) (rule some)
    then show ?thesis by (simp add: get_exercises_def)
  qed
  have keys: "map exercise_key (filter (having [] [] [''incorrect'']) (map ?row ks)) = filter ?inc ks"
    if "set ks \<subseteq> set ?keys" for ks
    using that row by (induction ks) auto
  have k: "map exercise_key (get_exercises exercises attempts [] [] [''incorrect'']) =
          filter ?inc ?keys"
    unfolding res by (rule keys) simp
  have "\<forall>r\<in>set (get_exercises exercises attempts [] [] [''incorrect'']).
          exercise.truncate r \<in> set exercises"
    unfolding res using row by auto
  moreover have "set (filter ?inc ?keys) = {k \<in> exercise_key ` set exercises. ?inc k}"
    by auto
  moreover have "distinct (filter ?inc ?keys)" by simp
  ultimately show ?thesis unfolding k by simp
qed

text \<open>Witness of C10: the exercise on page 1 has a correct and an incorrect attempt, the
  one on page 2 an incorrect attempt only, the one on page 3 none. Only the second is
  returned.\<close>

theorem get_exercises_incorrect_example:
  "(''book'', 2, 1) \<in> set (map exercise_key
      (get_exercises [exercise_on 1 [], exercise_on 2 [], exercise_on 3 []]
         [attempt_on 1 True ''2025-01-01'', attempt_on 1 False ''2025-01-02'',
          attempt_on 2 False ''2025-01-01''] [] [] [''incorrect''])) \<and>
   (''book'', 1, 1) \<notin> set (map exercise_key
      (get_exercises [exercise_on 1 [], exercise_on 2 [], exercise_on 3 []]
         [attempt_on 1 True ''2025-01-01'', attempt_on 1 False ''2025-01-02'',
          attempt_on 2 False ''2025-01-01''] [] [] [''incorrect''])) \<and>
   (''book'', 3, 1) \<notin> set (map exercise_key
      (get_exercises [exercise_on 1 [], exercise_on 2 [], exercise_on 3 []]
         [attempt_on 1 True ''2025-01-01'', attempt_on 1 False ''2025-01-02'',
          attempt_on 2 False ''2025-01-01''] [] [] [''incorrect'']))"
  using get_exercises_incorrect [of "[exercise_on 1 [], exercise_on 2 [], exercise_on 3 []]"
      "[attempt_on 1 True ''2025-01-01'', attempt_on 1 False ''2025-01-02'',
        attempt_on 2 False ''2025-01-01'']"]
  by (simp add: exercise_key_def attempt_key_def exercise_on_def attempt_on_def stamp_def)

subsection \<open>The loop over the pages\<close>

lemma save_exercises_cases:
  "save_exercises exs store =
     (case List.map_filter bind_error exs of
        [] \<Rightarrow> Inr (store @ exs)
      | err # errs \<Rightarrow> Inl err)"
  by (simp add: save_exercises_def split: list.splits)

lemma save_exercises_store:
  "save_exercises exs store =
     (case save_exercises exs [] of Inl err \<Rightarrow> Inl err | Inr rows \<Rightarrow> Inr (store @ rows))"
  by (simp add: save_exercises_def split: list.splits)

lemma save_exercises_Inr: "save_exercises exs store = Inr store' \<Longrightarrow> store' = store @ exs"
  by (simp add: save_exercises_def split: list.splits)

lemma process_page_store:
  "process_page srt ai now doc p store =
     (case process_page srt ai now doc p [] of
        Inl err \<Rightarrow> Inl err
      | Inr res \<Rightarrow> Inr (store @ fst res, snd res))"
  by (simp add: process_page_def Let_def save_exercises_store [of _ store] split: sum.splits)

lemma process_page_count:
  "process_page srt ai now doc p [] = Inr res \<Longrightarrow> snd res = length (fst res)"
  by (auto simp: process_page_def Let_def dest!: save_exercises_Inr split: sum.splits if_splits)

lemma process_page_cases:
  "process_page srt ai now doc p store =
     (if page_ok srt ai now doc p
      then Inr (store @ page_rows srt ai now doc p, length (page_rows srt ai now doc p))
      else Inl (projl (process_page srt ai now doc p [])))"
proof (cases "process_page srt ai now doc p []")
  case (Inl err)
  then show ?thesis
    by (subst process_page_store) (simp add: page_ok_def)
next
  case (Inr res)
  with process_page_count [OF Inr] show ?thesis
    by (subst process_page_store) (simp add: page_ok_def page_rows_def)
qed

lemma process_pages_eq:
  "process_pages srt ai now doc ps (store, num, log) =
     (let done = takeWhile (page_ok srt ai now doc) ps;
          rest = dropWhile (page_ok srt ai now doc) ps;
          added = concat (map (page_rows srt ai now doc) done)
      in (case rest of [] \<Rightarrow> None | q # qs \<Rightarrow> Some (projl (process_page srt ai now doc q [])),
          store @ added, num + length added,
          log @ map ProcessingPage (done @ take 1 rest)))"
proof (induction ps arbitrary: store num log)
  case Nil
  then show ?case by simp
next
  case (Cons p ps)
  show ?case
  proof (cases "page_ok srt ai now doc p")
    case True
    then show ?thesis
      by (simp add: process_page_cases [of srt ai now doc p store] Cons.IH Let_def)
  next
    case False
    then show ?thesis
      by (simp add: process_page_cases [of srt ai now doc p store] Let_def)
  qed
qed


lemma map_raise_set:
  "map_raise f xs = Inr ys \<Longrightarrow> y \<in> set ys \<Longrightarrow> \<exists>x\<in>set xs. f x = Inr y"
  by (induction xs arbitrary: ys) (auto split: sum.splits)

lemma enrich_with_toc_keeps:
  assumes "enrich_with_toc srt hs exs = Inr exs'" and "e' \<in> set exs'"
  shows "\<exists>e\<in>set exs. e_page e' = e_page e \<and> e_reference e' = e_reference e \<and>
           e_number e' = e_number e"
proof -
  from assms(1) obtain F where "map_raise (enrich_row F) exs = Inr exs'"
    by (auto simp: enrich_with_toc_def split: sum.splits)
  from map_raise_set [OF this assms(2)] obtain e where "e \<in> set exs" "enrich_row F e = Inr e'"
    by auto
  with enrich_row_Inr [of F e e'] show ?thesis by auto
qed

lemma page_rows_key:
  assumes "r \<in> set (page_rows srt ai now doc p)"
  shows "e_page r = p \<and> e_reference r = d_reference doc"
proof (cases "process_page srt ai now doc p []")
  case (Inl err)
  with assms show ?thesis by (simp add: page_rows_def)
next
  case (Inr res)
  with assms have r: "r \<in> set (fst res)" by (simp add: page_rows_def)
  then have "fst res \<noteq> []" by auto
  with Inr obtain exs where
    "enrich_with_toc srt (d_toc doc) (map (stamp (d_reference doc) p now) exs) = Inr (fst res)"
    by (auto simp: process_page_def Let_def dest!: save_exercises_Inr split: sum.splits if_splits)
  from enrich_with_toc_keeps [OF this r] show ?thesis
    by (auto simp: stamp_def)
qed

lemma enrich_row_created_on:
  "enrich_row F (e\<lparr>e_created_on := t\<rparr>) =
     (case enrich_row F e of Inl err \<Rightarrow> Inl err | Inr e' \<Rightarrow> Inr (e'\<lparr>e_created_on := t\<rparr>))"
  by (simp add: enrich_row_def split: sum.splits)

lemma map_raise_created_on:
  "map_raise (enrich_row F) (map (\<lambda>e. e\<lparr>e_created_on := t\<rparr>) exs) =
     (case map_raise (enrich_row F) exs of
        Inl err \<Rightarrow> Inl err
      | Inr exs' \<Rightarrow> Inr (map (\<lambda>e. e\<lparr>e_created_on := t\<rparr>) exs'))"
  by (induction exs) (auto simp: enrich_row_created_on split: sum.splits)

lemma stamp_created_on: "stamp reference p t x = (stamp reference p now x)\<lparr>e_created_on := t\<rparr>"
  by (simp add: stamp_def)

lemma enrich_with_toc_created_on:
  "enrich_with_toc srt hs (map (stamp reference p t) xs) =
     (case enrich_with_toc srt hs (map (stamp reference p now) xs) of
        Inl err \<Rightarrow> Inl err
      | Inr exs' \<Rightarrow> Inr (map (\<lambda>e. e\<lparr>e_created_on := t\<rparr>) exs'))"
proof -
  have "map (stamp reference p t) xs =
          map (\<lambda>e. e\<lparr>e_created_on := t\<rparr>) (map (stamp reference p now) xs)"
    by (simp add: stamp_created_on [of _ _ t _ now])
  then show ?thesis
    by (simp only: enrich_with_toc_def map_raise_created_on split: sum.splits) simp
qed

lemma process_page_clock:
  "process_page srt ai t doc p [] =
     (case process_page srt ai now doc p [] of
        Inl err \<Rightarrow> Inl err
      | Inr res \<Rightarrow> Inr (map (\<lambda>e. e\<lparr>e_created_on := t\<rparr>) (fst res), snd res))"
proof -
  have "List.map_filter bind_error (map (\<lambda>e. e\<lparr>e_created_on := t\<rparr>) ys) =
        List.map_filter bind_error ys" for ys
    by (induction ys) (simp_all add: List.map_filter_simps bind_error_def)
  then have ex: "save_exercises (map (\<lambda>e. e\<lparr>e_created_on := t\<rparr>) ys) [] =
      (case save_exercises ys [] of
         Inl err \<Rightarrow> Inl err
       | Inr rows \<Rightarrow> Inr (map (\<lambda>e. e\<lparr>e_created_on := t\<rparr>) rows))" for ys
    by (simp add: save_exercises_def split: list.splits)
  show ?thesis
    by (auto simp: process_page_def Let_def ex
          enrich_with_toc_created_on [of _ _ _ _ t _ now] split: sum.splits)
qed

lemma page_ok_clock: "page_ok srt ai t doc p = page_ok srt ai now doc p"
  by (subst page_ok_def, subst process_page_clock [of srt ai t doc p now])
     (simp add: page_ok_def split: sum.splits)

lemma page_rows_clock:
  "page_rows srt ai t doc p = map (\<lambda>e. e\<lparr>e_created_on := t\<rparr>) (page_rows srt ai now doc p)"
  by (subst page_rows_def, subst process_page_clock [of srt ai t doc p now])
     (simp add: page_rows_def split: sum.splits)

lemma sql_like_percent: "sql_like p s \<Longrightarrow> sql_like (CHR ''%'' # p) s"
  by (cases s) auto

lemma sql_like_refl: "sql_like p p"
  by (induction p) (auto simp: sql_like_percent)

subsection \<open>A run of \<open>process_document\<close>\<close>

lemma book_pages: "get_exercise_pages (d_marker_lines book) = Inr [5, 6]"
  by (simp add: book_def get_exercise_pages_def py_int_def split_first_def strip_def
      is_space_def digit_of_def)

lemma book_fields:
  "d_reference book = ''book''" "d_page_imgs book = [1, 2, 3, 4, 5, 6, 7]" "d_toc book = toc_example"
  by (simp_all add: book_def)

lemmas run_defs =
  process_document_def candidate_pages_def new_pages_def existing_pages_def
  process_page_def py_index_def extract_exercises_def stamp_def
  enrich_with_toc_def enrich_row_def section_of_def loc_def chapter_content_def
  chapter_eq_def save_exercises_def List.map_filter_simps bind_error_def sqlite_integer_def
  ascii_lower_def

lemma book_first_run:
  assumes "sorts_by_page srt"
  shows "process_document srt book_ai now book [] =
     (Some 1, [book_row now],
      [Converting, Identifying, Checking, Extracting, ProcessingPage 5, ProcessingPage 6,
       Saving, Complete])"
  by (simp add: run_defs book_pages book_fields book_ai_def toc_example_frame [OF assms]
      book_row_def)

lemma book_second_run:
  "process_document srt book_ai now' book [book_row now] =
     (Some 0, [book_row now],
      [Converting, Identifying, Checking, Extracting, ProcessingPage 5, Saving, Complete])"
  by (simp add: run_defs book_pages book_fields book_ai_def book_row_def)

lemma book_nothing_new:
  "process_document srt (\<lambda>im. NotJson) now' book [book_row now, (book_row now)\<lparr>e_page := 5\<rparr>] =
     (None, [book_row now, (book_row now)\<lparr>e_page := 5\<rparr>],
      [Converting, Identifying, Checking, NoNewExercises])"
  by (simp add: run_defs book_pages book_fields book_row_def)

lemma book_empty_pages:
  "process_document srt (\<lambda>im. Json []) now book [] =
     (Some 0, [],
      [Converting, Identifying, Checking, Extracting, ProcessingPage 5, ProcessingPage 6,
       Saving, Complete])"
  by (simp add: run_defs book_pages book_fields)


lemma process_document_unmarked:
  assumes "get_exercise_pages (d_marker_lines doc) = Inl err"
  shows "process_document srt ai now doc store = (None, store, [Converting, Identifying, ErrorStatus err])"
  using assms by (simp add: process_document_def)

lemma process_document_marked:
  assumes marked: "get_exercise_pages (d_marker_lines doc) = Inr marked"
    and pages: "pages = new_pages store (d_reference doc) (candidate_pages doc marked)"
    and finished: "finished = takeWhile (page_ok srt ai now doc) pages"
    and rest: "rest = dropWhile (page_ok srt ai now doc) pages"
    and added: "added = concat (map (page_rows srt ai now doc) finished)"
  shows "process_document srt ai now doc store =
     (if pages = [] then (None, store, [Converting, Identifying, Checking, NoNewExercises])
      else
        (case rest of
           [] \<Rightarrow>
             (Some (length added), store @ added,
              [Converting, Identifying, Checking, Extracting] @ map ProcessingPage finished @
              [Saving, Complete])
         | q # qs \<Rightarrow>
             (None, store @ added,
              [Converting, Identifying, Checking, Extracting] @ map ProcessingPage (finished @ [q]) @
              [ErrorStatus (projl (process_page srt ai now doc q []))])))"
proof -
  have loop: "process_pages srt ai now doc pages (store, 0, log) =
      (case rest of [] \<Rightarrow> None | q # qs \<Rightarrow> Some (projl (process_page srt ai now doc q [])),
       store @ added, length added, log @ map ProcessingPage (finished @ take 1 rest))" for log
    by (simp add: process_pages_eq Let_def rest finished added)
  show ?thesis
    unfolding process_document_def marked sum.case Let_def pages [symmetric] loop
    by (cases rest) simp_all
qed

lemma existing_pages_set:
  "set (existing_pages store reference pages) =
     {e_page r |r. r \<in> set store \<and> e_page r \<in> set pages \<and> sql_like reference (e_reference r)}"
  by (auto simp: existing_pages_def)

lemma existing_pages_added:
  assumes "set done \<subseteq> set pages"
  shows "set (existing_pages (store @ concat (map (page_rows srt ai now doc) done)) (d_reference doc) pages) =
         set (existing_pages store (d_reference doc) pages) \<union>
         {p \<in> set done. page_rows srt ai now doc p \<noteq> []}"
proof -
  have "{e_page r |r. r \<in> set (concat (map (page_rows srt ai now doc) done)) \<and> e_page r \<in> set pages \<and>
            sql_like (d_reference doc) (e_reference r)} = {p \<in> set done. page_rows srt ai now doc p \<noteq> []}"
    (is "?L = ?R")
  proof
    show "?L \<subseteq> ?R" using page_rows_key [of _ srt ai now doc] by fastforce
    show "?R \<subseteq> ?L"
    proof
      fix p assume "p \<in> ?R"
      then have p: "p \<in> set done" "page_rows srt ai now doc p \<noteq> []" by auto
      then obtain r where r: "r \<in> set (page_rows srt ai now doc p)" by (cases "page_rows srt ai now doc p") auto
      from page_rows_key [OF r] have "e_page r = p" "e_reference r = d_reference doc" by auto
      with p r assms show "p \<in> ?L" by (auto simp: sql_like_refl intro!: exI [of _ r])
    qed
  qed
  moreover have "set (existing_pages (store @ X) (d_reference doc) pages) =
      set (existing_pages store (d_reference doc) pages) \<union>
      {e_page r |r. r \<in> set X \<and> e_page r \<in> set pages \<and>
         sql_like (d_reference doc) (e_reference r)}" for X
    by (auto simp: existing_pages_def)
  ultimately show ?thesis by (simp only:)
qed

lemma rerun_pages:
  fixes ok nonempty :: "'a \<Rightarrow> bool"
  shows "\<forall>p\<in>set (takeWhile ok (filter (\<lambda>x. \<not> (x \<in> set (takeWhile ok xs) \<and> nonempty x)) xs)). \<not> nonempty p"
proof -
  define T where "T = takeWhile ok xs"
  define D where "D = dropWhile ok xs"
  define f where "f = (\<lambda>x. \<not> (x \<in> set T \<and> nonempty x))"
  have xs: "xs = T @ D" by (simp add: T_def D_def)
  have okT: "\<forall>x\<in>set T. ok x" by (auto simp: T_def dest: set_takeWhileD)
  have ys: "filter f xs = filter f T @ filter f D"
    unfolding xs by simp
  have fT: "\<forall>x\<in>set (filter f T). ok x \<and> \<not> nonempty x"
    using okT by (auto simp: f_def)
  have "\<forall>p\<in>set (takeWhile ok (filter f xs)). \<not> nonempty p"
  proof (cases D)
    case Nil
    with ys have "filter f xs = filter f T" by simp
    with fT show ?thesis by (metis set_takeWhileD)
  next
    case (Cons q qs)
    from Cons have "dropWhile ok xs = q # qs" by (simp add: D_def)
    then have "\<not> ok q" by (metis dropWhile_eq_Cons_conv)
    with okT have "q \<notin> set T" by auto
    then have "f q" by (simp add: f_def)
    with Cons have "filter f D = q # filter f qs" by simp
    with ys have "filter f xs = filter f T @ q # filter f qs" by simp
    with fT \<open>\<not> ok q\<close> have "takeWhile ok (filter f xs) = filter f T"
      by (simp add: takeWhile_tail)
    with fT show ?thesis by auto
  qed
  then show ?thesis unfolding f_def T_def .
qed

subsection \<open>Ingestion\<close>

lemma process_document_store:
  assumes run: "process_document srt ai now doc store = (r, store', log)"
  shows "\<exists>finished. store' = store @ concat (map (page_rows srt ai now doc) finished) \<and>
           (\<forall>n. r = Some n \<longrightarrow> n = length (concat (map (page_rows srt ai now doc) finished)))"
proof (cases "get_exercise_pages (d_marker_lines doc)")
  case (Inl err)
  from run process_document_unmarked [OF Inl, of srt ai now store]
  have "store' = store" "r = None" by auto
  then show ?thesis by (intro exI [of _ "[]"]) simp
next
  case (Inr marked)
  define pages where "pages = new_pages store (d_reference doc) (candidate_pages doc marked)"
  define finished where "finished = takeWhile (page_ok srt ai now doc) pages"
  define rest where "rest = dropWhile (page_ok srt ai now doc) pages"
  define added where "added = concat (map (page_rows srt ai now doc) finished)"
  note eq = process_document_marked [OF Inr pages_def finished_def rest_def added_def]
  show ?thesis
  proof (cases "pages = []")
    case True
    with run eq have "store' = store" "r = None" by auto
    then show ?thesis by (intro exI [of _ "[]"]) simp
  next
    case False
    with run eq have "store' = store @ added \<and> (\<forall>n. r = Some n \<longrightarrow> n = length added)"
      by (cases rest) auto
    then show ?thesis unfolding added_def by blast
  qed
qed


lemma process_document_log_pages:
  assumes run: "process_document srt ai now doc store = (r, store', log)"
    and p: "ProcessingPage p \<in> set log"
  shows "\<exists>marked. get_exercise_pages (d_marker_lines doc) = Inr marked \<and>
           p \<in> set (new_pages store (d_reference doc) (candidate_pages doc marked))"
proof (cases "get_exercise_pages (d_marker_lines doc)")
  case (Inl err)
  from run p process_document_unmarked [OF Inl, of srt ai now store] show ?thesis by auto
next
  case (Inr marked)
  define pages where "pages = new_pages store (d_reference doc) (candidate_pages doc marked)"
  define finished where "finished = takeWhile (page_ok srt ai now doc) pages"
  define rest where "rest = dropWhile (page_ok srt ai now doc) pages"
  define added where "added = concat (map (page_rows srt ai now doc) finished)"
  note eq = process_document_marked [OF Inr pages_def finished_def rest_def added_def]
  have fin: "set finished \<subseteq> set pages"
    unfolding finished_def by (auto dest: set_takeWhileD)
  have rst: "set rest \<subseteq> set pages"
    unfolding rest_def by (auto dest: set_dropWhileD)
  have "p \<in> set pages"
  proof (cases "pages = []")
    case True
    with run eq p show ?thesis by auto
  next
    case False
    show ?thesis
    proof (cases rest)
      case Nil
      with False run eq p fin show ?thesis by auto
    next
      case (Cons q qs)
      with rst have "q \<in> set pages" by auto
      with Cons False run eq p fin show ?thesis by auto
    qed
  qed
  with Inr show ?thesis by (simp add: pages_def)
qed

lemma new_pages_excludes_stored:
  assumes "row \<in> set store" and "e_reference row = reference"
  shows "e_page row \<notin> set (new_pages store reference pages)"
proof
  assume a: "e_page row \<in> set (new_pages store reference pages)"
  then have "e_page row \<in> set pages" by (simp add: new_pages_def)
  with assms have "e_page row \<in> set (existing_pages store reference pages)"
    unfolding existing_pages_set using sql_like_refl [of reference] by auto
  with a show False by (simp add: new_pages_def)
qed

lemma empty_page_stays_new:
  assumes run: "process_document srt ai now doc store = (r, store', log)"
    and empty: "page_rows srt ai now doc p = []"
    and new: "p \<in> set (new_pages store (d_reference doc) pages)"
  shows "p \<in> set (new_pages store' (d_reference doc) pages)"
proof -
  from process_document_store [OF run] obtain finished where
    st: "store' = store @ concat (map (page_rows srt ai now doc) finished)" by blast
  have "p \<notin> set (existing_pages store' (d_reference doc) pages)"
  proof
    assume "p \<in> set (existing_pages store' (d_reference doc) pages)"
    then obtain row where row: "row \<in> set store'" "e_page row = p"
      "sql_like (d_reference doc) (e_reference row)"
      unfolding existing_pages_set by auto
    from new have "p \<in> set pages" "p \<notin> set (existing_pages store (d_reference doc) pages)"
      by (simp_all add: new_pages_def)
    with row have "row \<notin> set store" unfolding existing_pages_set by auto
    with row(1) st obtain q where "row \<in> set (page_rows srt ai now doc q)" by auto
    with page_rows_key [OF this] row(2) empty show False by simp
  qed
  with new show ?thesis by (simp add: new_pages_def)
qed

text \<open>
  C3, as amended: a page for which the store holds at least one exercise under the
  document's reference, as an earlier run leaves it for a page that gave exercises, is not
  processed by a later run: \<open>process_document\<close> never reaches "Processing page" for
  it, so the page is not sent to the AI service again. A page that gives a run no row, and
  had none before, is still among the new pages after the run.
\<close>

theorem stored_page_is_not_processed_again:
  assumes "plain_reference (d_reference doc)"
    and "row \<in> set store" and "e_reference row = d_reference doc"
  shows "ProcessingPage (e_page row) \<notin> set (snd (snd (process_document srt ai now doc store))) \<and>
         (\<forall>r store' log p pages.
            process_document srt ai now doc store = (r, store', log) \<and>
            page_rows srt ai now doc p = [] \<and>
            p \<in> set (new_pages store (d_reference doc) pages) \<longrightarrow>
            p \<in> set (new_pages store' (d_reference doc) pages))"
proof -
  have "ProcessingPage (e_page row) \<notin> set (snd (snd (process_document srt ai now doc store)))"
  proof
    assume a: "ProcessingPage (e_page row) \<in> set (snd (snd (process_document srt ai now doc store)))"
    obtain r store' log where run: "process_document srt ai now doc store = (r, store', log)"
      by (cases "process_document srt ai now doc store") auto
    with a have "ProcessingPage (e_page row) \<in> set log" by simp
    from process_document_log_pages [OF run this] new_pages_excludes_stored [OF assms(2,3)]
    show False by auto
  qed
  then show ?thesis using empty_page_stays_new by blast
qed

text \<open>Witness of C3: with the row of page 6 in the store, a later run of the book does not
  process page 6.\<close>

theorem stored_page_example:
  "ProcessingPage 6 \<notin>
     set (snd (snd (process_document stable_sort book_ai ''02/01/2025 10:00:00'' book [book_row ''01/01/2025 10:00:00''])))"
proof -
  have "plain_reference (d_reference book)" by (simp add: plain_reference_def book_fields)
  from stored_page_is_not_processed_again [OF this, of "book_row ''01/01/2025 10:00:00''"
     "[book_row ''01/01/2025 10:00:00'']" stable_sort book_ai "''02/01/2025 10:00:00''"]
  show ?thesis by (simp add: book_row_def book_fields)
qed

text \<open>
  Counterexample to C3 as stated: the AI service finds no exercise on pages 5 and 6. The
  first run processes both pages and stores nothing; the later run, on the store the first
  one left, processes both pages again. A page is known as ingested only by its rows in the
  \<open>exercises\<close> table.
\<close>

theorem empty_page_is_processed_again:
  "process_document stable_sort (\<lambda>im. Json []) ''01/01/2025 10:00:00'' book [] =
     (Some 0, [],
      [Converting, Identifying, Checking, Extracting, ProcessingPage 5, ProcessingPage 6,
       Saving, Complete]) \<and>
   process_document stable_sort (\<lambda>im. Json []) ''02/01/2025 10:00:00'' book [] =
     (Some 0, [],
      [Converting, Identifying, Checking, Extracting, ProcessingPage 5, ProcessingPage 6,
       Saving, Complete])"
  by (simp add: book_empty_pages)

text \<open>
  C8, as amended: when \<open>process_document\<close> returns a number, the run ended with
  "Processing complete!" and the number is the count of the rows the run added to the
  table (0 when the pages it processed gave no exercise). When no candidate page is new, the
  function returns \<open>None\<close>, not 0, stores nothing and ends with "No new exercises to
  extract!". A run with a new page and no exception on any of its pages returns a number.
\<close>

theorem process_document_returns_count:
  assumes "plain_reference (d_reference doc)"
    and run: "process_document srt ai now doc store = (r, store', log)"
  shows "(\<forall>n. r = Some n \<longrightarrow>
            (\<exists>added. store' = store @ added \<and> length added = n) \<and> last log = Complete) \<and>
         (\<forall>marked. get_exercise_pages (d_marker_lines doc) = Inr marked \<and>
            new_pages store (d_reference doc) (candidate_pages doc marked) = [] \<longrightarrow>
            r = None \<and> store' = store \<and> last log = NoNewExercises) \<and>
         (\<forall>marked. get_exercise_pages (d_marker_lines doc) = Inr marked \<and>
            new_pages store (d_reference doc) (candidate_pages doc marked) \<noteq> [] \<and>
            (\<forall>p\<in>set (new_pages store (d_reference doc) (candidate_pages doc marked)).
               page_ok srt ai now doc p) \<longrightarrow>
            (\<exists>n. r = Some n))"
proof -
  from process_document_store [OF run] obtain finished where
    st: "store' = store @ concat (map (page_rows srt ai now doc) finished)"
    and n: "\<forall>n. r = Some n \<longrightarrow> n = length (concat (map (page_rows srt ai now doc) finished))"
    by blast
  have complete: "last log = Complete" if "r = Some n" for n
  proof (cases "get_exercise_pages (d_marker_lines doc)")
    case (Inl err)
    from run that process_document_unmarked [OF Inl, of srt ai now store] show ?thesis by simp
  next
    case (Inr marked)
    define pages where "pages = new_pages store (d_reference doc) (candidate_pages doc marked)"
    define finished where "finished = takeWhile (page_ok srt ai now doc) pages"
    define rest where "rest = dropWhile (page_ok srt ai now doc) pages"
    define added where "added = concat (map (page_rows srt ai now doc) finished)"
    note eq = process_document_marked [OF Inr pages_def finished_def rest_def added_def]
    from run that eq show ?thesis
      by (cases "pages = []"; cases rest) auto
  qed
  have none: "r = None \<and> store' = store \<and> last log = NoNewExercises"
    if "get_exercise_pages (d_marker_lines doc) = Inr marked"
      and "new_pages store (d_reference doc) (candidate_pages doc marked) = []" for marked
  proof -
    have "process_document srt ai now doc store =
            (None, store, [Converting, Identifying, Checking, NoNewExercises])"
      by (subst process_document_marked [OF that(1) refl refl refl refl]) (simp add: that(2))
    with run have "r = None" "store' = store" "log = [Converting, Identifying, Checking, NoNewExercises]"
      by simp_all
    then show ?thesis by simp
  qed
  have some: "\<exists>n. r = Some n"
    if "get_exercise_pages (d_marker_lines doc) = Inr marked"
      and "new_pages store (d_reference doc) (candidate_pages doc marked) \<noteq> []"
      and "\<forall>p\<in>set (new_pages store (d_reference doc) (candidate_pages doc marked)).
             page_ok srt ai now doc p" for marked
  proof -
    from that(3) have "dropWhile (page_ok srt ai now doc)
        (new_pages store (d_reference doc) (candidate_pages doc marked)) = []"
      by simp
    note dw = this [symmetric]
    from that(2) have "\<exists>n. fst (process_document srt ai now doc store) = Some n"
      by (subst process_document_marked [OF that(1) refl refl dw refl]) simp
    with run show ?thesis by simp
  qed
  from st n complete none some show ?thesis by blast
qed

text \<open>Witness of C8: the second run of the book processes page 5 again, stores nothing and
  returns 0.\<close>

theorem process_document_count_example:
  "process_document stable_sort book_ai ''02/01/2025 10:00:00'' book [book_row ''01/01/2025 10:00:00''] =
     (Some 0, [book_row ''01/01/2025 10:00:00''],
      [Converting, Identifying, Checking, Extracting, ProcessingPage 5, Saving, Complete]) \<and>
   (\<exists>added. [book_row ''01/01/2025 10:00:00''] = [book_row ''01/01/2025 10:00:00''] @ added \<and>
      length added = 0)"
proof -
  have "plain_reference (d_reference book)" by (simp add: plain_reference_def book_fields)
  from process_document_returns_count [OF this book_second_run] book_second_run
  show ?thesis by simp
qed

text \<open>
  Counterexample to C8 as stated: both marked pages of the book have a row in the store. The
  run completes, stores no new exercise and returns \<open>None\<close>, the value an error gives
  too, where the claim has it return 0.
\<close>

theorem process_document_nothing_new_returns_None:
  "process_document stable_sort book_ai ''02/01/2025 10:00:00'' book
     [book_row ''01/01/2025 10:00:00'', (book_row ''01/01/2025 10:00:00'')\<lparr>e_page := 5\<rparr>] =
     (None, [book_row ''01/01/2025 10:00:00'', (book_row ''01/01/2025 10:00:00'')\<lparr>e_page := 5\<rparr>],
      [Converting, Identifying, Checking, NoNewExercises]) \<and>
   fst (process_document stable_sort book_ai ''02/01/2025 10:00:00'' book
     [book_row ''01/01/2025 10:00:00'', (book_row ''01/01/2025 10:00:00'')\<lparr>e_page := 5\<rparr>]) \<noteq> Some 0"
  by (simp add: run_defs book_pages book_fields book_row_def)

lemma page_rows_NotJson:
  assumes "py_index (d_page_imgs doc) (p - 1) = Inr im" and "ai im = NotJson"
  shows "process_page srt ai now doc p store = Inr (store, 0)" and "page_rows srt ai now doc p = []"
  using assms by (simp_all add: process_page_def page_rows_def extract_exercises_def)

text \<open>
  C5: when the AI's answer for a page is not JSON, \<open>extract_exercises\<close> returns the
  empty list, the loop goes on with the remaining pages from the same store and the same
  count, and the page, if it had no row in the store before the run, has none after it: a
  later run selects it again.
\<close>

theorem unparsable_page_is_skipped:
  assumes "plain_reference (d_reference doc)"
    and idx: "py_index (d_page_imgs doc) (p - 1) = Inr im" and nj: "ai im = NotJson"
  shows "extract_exercises (ai im) = Inr [] \<and>
         process_pages srt ai now doc (p # ps) (store, num, log) =
           process_pages srt ai now doc ps (store, num, log @ [ProcessingPage p]) \<and>
         (\<forall>r store' log' pages.
            process_document srt ai now doc store = (r, store', log') \<and>
            p \<in> set (new_pages store (d_reference doc) pages) \<longrightarrow>
            p \<in> set (new_pages store' (d_reference doc) pages))"
proof -
  have a: "extract_exercises (ai im) = Inr []" by (simp add: nj extract_exercises_def)
  have b: "process_pages srt ai now doc (p # ps) (store, num, log) =
           process_pages srt ai now doc ps (store, num, log @ [ProcessingPage p])"
    by (simp add: page_rows_NotJson(1) [where ai = ai and im = im, OF idx nj])
  have c: "p \<in> set (new_pages store' (d_reference doc) pages)"
    if run: "process_document srt ai now doc store = (r, store', log')"
      and new: "p \<in> set (new_pages store (d_reference doc) pages)" for r store' log' pages
    using run page_rows_NotJson(2) [where ai = ai and im = im and now = now, OF idx nj] new
    by (rule empty_page_stays_new)
  from a b c show ?thesis by blast
qed

text \<open>Witness of C5: page 5 of the book. The run stores the exercise of page 6, and page 5
  is still new for the next run.\<close>

theorem unparsable_page_example:
  "extract_exercises (book_ai 5) = Inr [] \<and>
   process_pages stable_sort book_ai ''01/01/2025 10:00:00'' book [5, 6] ([], 0, [Extracting]) =
     process_pages stable_sort book_ai ''01/01/2025 10:00:00'' book [6] ([], 0, [Extracting, ProcessingPage 5]) \<and>
   process_document stable_sort book_ai ''01/01/2025 10:00:00'' book [] =
     (Some 1, [book_row ''01/01/2025 10:00:00''],
      [Converting, Identifying, Checking, Extracting, ProcessingPage 5, ProcessingPage 6,
       Saving, Complete]) \<and>
   5 \<in> set (new_pages [book_row ''01/01/2025 10:00:00''] ''book'' [5, 6])"
proof -
  have ref: "plain_reference (d_reference book)" by (simp add: plain_reference_def book_fields)
  have idx: "py_index (d_page_imgs book) (5 - 1) = Inr 5" by (simp add: py_index_def book_fields)
  have nj: "book_ai 5 = NotJson" by (simp add: book_ai_def)
  have new: "5 \<in> set (new_pages [] (d_reference book) [5, 6])"
    by (simp add: new_pages_def existing_pages_def)
  from unparsable_page_is_skipped [where srt = stable_sort and ai = book_ai and im = 5
      and now = "''01/01/2025 10:00:00''"
      and ps = "[6]" and store = "[]" and num = 0 and log = "[Extracting]", OF ref idx nj]
    book_first_run [OF sorts_by_page_stable, of "''01/01/2025 10:00:00''"] new
  show ?thesis by (auto simp: book_fields)
qed

text \<open>
  C2: a second run on the same document, with the same AI answers and on the store the first
  run left, adds no row: the table, and so its row count, is the same after the second run
  as after the first, and the second run returns 0 or \<open>None\<close>. The two runs may stamp
  different times.
\<close>

theorem ingest_twice_adds_nothing:
  assumes "plain_reference (d_reference doc)"
    and run1: "process_document srt ai now doc store = (r1, store1, log1)"
    and run2: "process_document srt ai now' doc store1 = (r2, store2, log2)"
  shows "store2 = store1 \<and> length store2 = length store1 \<and> (r2 = None \<or> r2 = Some 0)"
proof (cases "get_exercise_pages (d_marker_lines doc)")
  case (Inl err)
  from run2 process_document_unmarked [OF Inl, of srt ai now' store1] show ?thesis by auto
next
  case (Inr marked)
  define cands where "cands = candidate_pages doc marked"
  define ok where "ok = page_ok srt ai now doc"
  define pages1 where "pages1 = new_pages store (d_reference doc) (candidate_pages doc marked)"
  define finished1 where "finished1 = takeWhile (page_ok srt ai now doc) pages1"
  define rest1 where "rest1 = dropWhile (page_ok srt ai now doc) pages1"
  define added1 where "added1 = concat (map (page_rows srt ai now doc) finished1)"
  define pages2 where "pages2 = new_pages store1 (d_reference doc) (candidate_pages doc marked)"
  define finished2 where "finished2 = takeWhile (page_ok srt ai now' doc) pages2"
  define rest2 where "rest2 = dropWhile (page_ok srt ai now' doc) pages2"
  define added2 where "added2 = concat (map (page_rows srt ai now' doc) finished2)"
  note eq1 = process_document_marked [OF Inr pages1_def finished1_def rest1_def added1_def]
  note eq2 = process_document_marked [OF Inr pages2_def finished2_def rest2_def added2_def]
  have store1: "store1 = store @ added1"
  proof (cases "pages1 = []")
    case True
    with run1 eq1 show ?thesis by (simp add: added1_def finished1_def)
  next
    case False
    with run1 eq1 show ?thesis by (cases rest1) auto
  qed
  have sub: "set finished1 \<subseteq> set cands"
    unfolding finished1_def pages1_def new_pages_def cands_def by (auto dest: set_takeWhileD)
  have "set (existing_pages store1 (d_reference doc) cands) =
          set (existing_pages store (d_reference doc) cands) \<union>
          {p \<in> set finished1. page_rows srt ai now doc p \<noteq> []}"
    unfolding store1 added1_def by (rule existing_pages_added [OF sub])
  then have pages2: "pages2 =
      filter (\<lambda>x. \<not> (x \<in> set (takeWhile ok pages1) \<and> page_rows srt ai now doc x \<noteq> [])) pages1"
    unfolding pages2_def pages1_def new_pages_def cands_def [symmetric] ok_def finished1_def
    by (auto intro: filter_cong)
  have "\<forall>p\<in>set (takeWhile ok pages2). \<not> page_rows srt ai now doc p \<noteq> []"
    unfolding pages2 by (rule rerun_pages)
  then have "\<forall>p\<in>set finished2. page_rows srt ai now' doc p = []"
    unfolding finished2_def ok_def page_ok_clock [of srt ai now' doc _ now]
    by (simp add: page_rows_clock [of srt ai now' doc _ now])
  then have added2: "added2 = []" by (simp add: added2_def)
  have "store2 = store1 \<and> (r2 = None \<or> r2 = Some 0)"
  proof (cases "pages2 = []")
    case True
    with run2 eq2 show ?thesis by auto
  next
    case False
    with run2 eq2 added2 show ?thesis by (cases rest2) auto
  qed
  then show ?thesis by simp
qed

text \<open>Witness of C2: the two runs of the book.\<close>

theorem ingest_twice_example:
  "process_document stable_sort book_ai ''01/01/2025 10:00:00'' book [] =
     (Some 1, [book_row ''01/01/2025 10:00:00''],
      [Converting, Identifying, Checking, Extracting, ProcessingPage 5, ProcessingPage 6,
       Saving, Complete]) \<and>
   fst (snd (process_document stable_sort book_ai ''02/01/2025 10:00:00'' book [book_row ''01/01/2025 10:00:00''])) =
     [book_row ''01/01/2025 10:00:00'']"
proof -
  have ref: "plain_reference (d_reference book)" by (simp add: plain_reference_def book_fields)
  obtain r2 store2 log2 where run2:
    "process_document stable_sort book_ai ''02/01/2025 10:00:00'' book [book_row ''01/01/2025 10:00:00''] =
       (r2, store2, log2)"
    by (cases "process_document stable_sort book_ai ''02/01/2025 10:00:00'' book [book_row ''01/01/2025 10:00:00'']")
       auto
  note run1 = book_first_run [OF sorts_by_page_stable, of "''01/01/2025 10:00:00''"]
  from ingest_twice_adds_nothing [OF ref run1 run2] run2 run1
  show ?thesis by simp
qed

end
